theory Spec2Isabelle
  imports Main "HOL-Library.Sublist"
begin

section \<open>The model of logitech.py\<close>

subsection \<open>Containers: storage units, bins and trucks\<close>

text \<open>
  Exceptions of the Python program are values. \<open>ValueError\<close> is the "Not enough space"
  error of \<open>occupy_space\<close>, \<open>IndexError\<close> an out-of-range list access, \<open>RecursionError\<close>
  the interpreter's answer to a call beyond its recursion limit, \<open>DatabaseError\<close> a
  fault raised by the audit store.
\<close>

datatype error = ValueError | IndexError | RecursionError | DatabaseError

text \<open>
  \<open>class StorageUnit\<close>, with its subclasses as record extensions. Python integers are
  unbounded, hence \<open>int\<close>. The constructor sets \<open>used_space\<close> to 0 and checks nothing.
\<close>

record StorageUnit =
  capacity :: int
  used_space :: int

record StorageBin = StorageUnit +
  bin_id :: int
  location_code :: string

record Truck = StorageUnit +
  truck_id :: string

record Package =
  tracking_id :: string
  size_pkg :: int
  destination :: string

definition new_StorageBin :: "int \<Rightarrow> int \<Rightarrow> string \<Rightarrow> StorageBin" where
  "new_StorageBin b c l = \<lparr>capacity = c, used_space = 0, bin_id = b, location_code = l\<rparr>"

definition new_Truck :: "string \<Rightarrow> int \<Rightarrow> Truck" where
  "new_Truck t c = \<lparr>capacity = c, used_space = 0, truck_id = t\<rparr>"

text \<open>
  A method that mutates its object returns the outcome (\<open>Inl\<close> an exception raised,
  \<open>Inr\<close> a normal return) together with the object as it is after the call.
\<close>

definition occupy_space ::
  "'a StorageUnit_scheme \<Rightarrow> int \<Rightarrow> (error + unit) \<times> 'a StorageUnit_scheme" where
  "occupy_space u amount =
     (if used_space u + amount > capacity u then (Inl ValueError, u)
      else (Inr (), u\<lparr>used_space := used_space u + amount\<rparr>))"

definition free_space :: "'a StorageUnit_scheme \<Rightarrow> int \<Rightarrow> 'a StorageUnit_scheme" where
  "free_space u amount = u\<lparr>used_space := max 0 (used_space u - amount)\<rparr>"

definition remaining_space :: "'a StorageUnit_scheme \<Rightarrow> int" where
  "remaining_space u = capacity u - used_space u"

subsection \<open>Python list indexing\<close>

text \<open>
  \<open>xs[i]\<close>: the position an index denotes. A negative index counts from the end, an
  index out of range raises \<open>IndexError\<close>.
\<close>

definition py_pos :: "'a list \<Rightarrow> int \<Rightarrow> error + nat" where
  "py_pos xs i =
     (let n = int (length xs) in
      if 0 \<le> i \<and> i < n then Inr (nat i)
      else if - n \<le> i \<and> i < 0 then Inr (nat (n + i))
      else Inl IndexError)"

subsection \<open>The allocation index: binary search on the sorted bin list\<close>

text \<open>
  The \<open>while low <= high\<close> loop of \<open>find_best_fit_bin\<close>, as a function of the loop
  variables. \<open>low\<close>, \<open>high\<close> and \<open>ans\<close> are Python integers (\<open>high\<close> starts at
  \<open>len - 1\<close>, which is \<open>-1\<close> on the empty list), \<open>//\<close> is floor division.
\<close>

function bs_loop :: "StorageBin list \<Rightarrow> int \<Rightarrow> int \<Rightarrow> int \<Rightarrow> int \<Rightarrow> error + int" where
  "bs_loop bins pkg_size low high ans =
     (if low \<le> high then
        (let mid = (low + high) div 2 in
         case py_pos bins mid of
           Inl e \<Rightarrow> Inl e
         | Inr k \<Rightarrow>
             if capacity (bins ! k) \<ge> pkg_size then bs_loop bins pkg_size low (mid - 1) mid
             else bs_loop bins pkg_size (mid + 1) high ans)
      else Inr ans)"
  by pat_completeness auto
termination
  by (relation "measure (\<lambda>(bins, pkg_size, low, high, ans). nat (high - low + 1))") auto

declare bs_loop.simps [simp del]

definition find_best_fit_bin :: "StorageBin list \<Rightarrow> int \<Rightarrow> error + int" where
  "find_best_fit_bin bins pkg_size = bs_loop bins pkg_size 0 (int (length bins) - 1) (- 1)"

subsection \<open>The controller state and the audit store\<close>

text \<open>
  A row of \<open>shipment_logs\<close>: tracking id, bin id (\<open>None\<close> for SQL NULL) and status. The
  timestamp column is read from the wall clock and is left out.

  The controller owns the bin list, the incoming queue and the loading stack. The stack
  holds references to truck objects that belong to the caller, so trucks live in a store
  \<open>truck_heap\<close> from references to objects, and a stack entry is a reference with a
  package. \<open>shipment_logs\<close> holds the committed rows of the table, \<open>db_pending\<close> the rows
  of the open transaction. Lists grow at the end, as Python's \<open>append\<close> does; the top of
  the loading stack is the last element.
\<close>

type_synonym audit_record = "string \<times> int option \<times> string"

type_synonym truck_ref = nat

record Controller =
  bin_inventory :: "StorageBin list"
  queue_incoming :: "Package list"
  stack_loading :: "(truck_ref \<times> Package) list"
  truck_heap :: "truck_ref \<Rightarrow> Truck"
  shipment_logs :: "audit_record list"
  db_pending :: "audit_record list"

text \<open>
  The audit store is an external collaborator that can fail. An operation of the
  controller takes a fault schedule \<open>fs\<close>: its k-th element says whether the k-th
  \<open>INSERT\<close> or \<open>commit\<close> of the operation raises; beyond its end no call raises. A
  call that raises changes nothing. \<open>rollback\<close> of the connection discards the open
  transaction and does not raise.
\<close>

definition log_action ::
  "bool list \<Rightarrow> string \<Rightarrow> int option \<Rightarrow> string \<Rightarrow> Controller \<Rightarrow> (error + bool list) \<times> Controller" where
  "log_action fs tid bid status s =
     (case fs of
        True # _ \<Rightarrow> (Inl DatabaseError, s)
      | _ \<Rightarrow> (Inr (tl fs), s\<lparr>db_pending := db_pending s @ [(tid, bid, status)]\<rparr>))"

definition db_commit :: "bool list \<Rightarrow> Controller \<Rightarrow> (error + bool list) \<times> Controller" where
  "db_commit fs s =
     (case fs of
        True # _ \<Rightarrow> (Inl DatabaseError, s)
      | _ \<Rightarrow> (Inr (tl fs), s\<lparr>shipment_logs := shipment_logs s @ db_pending s, db_pending := []\<rparr>))"

definition db_rollback :: "Controller \<Rightarrow> Controller" where
  "db_rollback s = s\<lparr>db_pending := []\<rparr>"

text \<open>
  \<open>load_bins_from_db\<close> on the rows of \<open>bin_configuration\<close>: an empty table is filled with
  the four demo bins first; the bins are sorted by capacity (a stable sort).
\<close>

definition demo :: "(int \<times> int \<times> string) list" where
  "demo = [(1, 10, ''A1''), (2, 20, ''A2''), (3, 50, ''B1''), (4, 100, ''B2'')]"

definition load_bins_from_db :: "(int \<times> int \<times> string) list \<Rightarrow> StorageBin list" where
  "load_bins_from_db rows =
     sort_key capacity
       (map (\<lambda>(b, c, l). new_StorageBin b c l) (if rows = [] then demo else rows))"

definition new_Controller ::
  "(int \<times> int \<times> string) list \<Rightarrow> audit_record list \<Rightarrow> (truck_ref \<Rightarrow> Truck) \<Rightarrow> Controller" where
  "new_Controller rows logs heap =
     \<lparr>bin_inventory = load_bins_from_db rows, queue_incoming = [], stack_loading = [],
      truck_heap = heap, shipment_logs = logs, db_pending = []\<rparr>"

definition add_package :: "Package \<Rightarrow> Controller \<Rightarrow> Controller" where
  "add_package package s = s\<lparr>queue_incoming := queue_incoming s @ [package]\<rparr>"

subsection \<open>Placement\<close>

text \<open>
  The body of the \<open>try\<close> block of \<open>process_package\<close>. The bin object is mutated in
  place, so the object as \<open>occupy_space\<close> leaves it is written back at its position.
\<close>

definition try_place :: "bool list \<Rightarrow> Package \<Rightarrow> Controller \<Rightarrow> (error + bool list) \<times> Controller" where
  "try_place fs pkg s =
     (case find_best_fit_bin (bin_inventory s) (size_pkg pkg) of
        Inl e \<Rightarrow> (Inl e, s)
      | Inr idx \<Rightarrow>
          (case
             (if idx = - 1 then log_action fs (tracking_id pkg) None ''NO_BIN'' s
              else
                (case py_pos (bin_inventory s) idx of
                   Inl e \<Rightarrow> (Inl e, s)
                 | Inr k \<Rightarrow>
                     (case occupy_space (bin_inventory s ! k) (size_pkg pkg) of
                        (r, bin_obj) \<Rightarrow>
                          let s1 = s\<lparr>bin_inventory := (bin_inventory s)[k := bin_obj]\<rparr> in
                          (case r of
                             Inl e \<Rightarrow> (Inl e, s1)
                           | Inr _ \<Rightarrow>
                               log_action fs (tracking_id pkg) (Some (bin_id bin_obj))
                                 ''BIN_ASSIGNED'' s1))))
           of
             (Inl e, s2) \<Rightarrow> (Inl e, s2)
           | (Inr fs', s2) \<Rightarrow> db_commit fs' s2))"

text \<open>
  \<open>process_package\<close>: nothing happens on an empty queue; otherwise the head of the queue
  is taken, and any exception of the \<open>try\<close> block is caught and answered by a rollback of
  the open transaction.
\<close>

definition process_package :: "bool list \<Rightarrow> Controller \<Rightarrow> Controller" where
  "process_package fs s =
     (case queue_incoming s of
        [] \<Rightarrow> s
      | pkg # rest \<Rightarrow>
          (case try_place fs pkg (s\<lparr>queue_incoming := rest\<rparr>) of
             (Inl e, s1) \<Rightarrow> db_rollback s1
           | (Inr _, s1) \<Rightarrow> s1))"

subsection \<open>The loader\<close>

text \<open>
  \<open>try_load\<close> is recursive, one call for each index up to the length of the list, and
  the interpreter bounds the depth of its call stack (by \<open>sys.getrecursionlimit()\<close>, 1000
  unless it is reset). The first argument \<open>frames\<close> is the number of calls the stack
  still has room for: a call with no room left raises \<open>RecursionError\<close>, and each call
  leaves one frame less to the calls it makes.

  \<open>try_load\<close> returns its boolean (or the exception it raised) and the list \<open>chosen\<close>
  as the call leaves it: the Python mutates that list in place. \<open>chosen.pop()\<close> raises
  \<open>IndexError\<close> on an empty list.
\<close>

fun try_load ::
  "nat \<Rightarrow> Package list \<Rightarrow> nat \<Rightarrow> int \<Rightarrow> Package list \<Rightarrow> (error + bool) \<times> Package list" where
  "try_load 0 pkgs i space chosen = (Inl RecursionError, chosen)"
| "try_load (Suc frames) pkgs i space chosen =
     (if i = length pkgs then (Inr (length chosen > 0 \<and> space \<ge> 0), chosen)
      else
        (case py_pos pkgs (int i) of
           Inl e \<Rightarrow> (Inl e, chosen)
         | Inr k \<Rightarrow>
             (let pkg = pkgs ! k in
              if size_pkg pkg \<le> space then
                (case try_load frames pkgs (i + 1) (space - size_pkg pkg) (chosen @ [pkg]) of
                   (Inl e, ch) \<Rightarrow> (Inl e, ch)
                 | (Inr True, ch) \<Rightarrow> (Inr True, ch)
                 | (Inr False, ch) \<Rightarrow>
                     if ch = [] then (Inl IndexError, ch)
                     else try_load frames pkgs (i + 1) space (butlast ch))
              else try_load frames pkgs (i + 1) space chosen)))"

declare try_load.simps [simp del]

text \<open>The \<open>for p in chosen\<close> loop of \<open>load_fragile\<close>.\<close>

fun apply_chosen ::
  "bool list \<Rightarrow> truck_ref \<Rightarrow> Package list \<Rightarrow> Controller \<Rightarrow> (error + bool list) \<times> Controller" where
  "apply_chosen fs truck [] s = (Inr fs, s)"
| "apply_chosen fs truck (p # ps) s =
     (let s1 = s\<lparr>stack_loading := stack_loading s @ [(truck, p)]\<rparr> in
      case occupy_space (truck_heap s1 truck) (size_pkg p) of
        (r, t) \<Rightarrow>
          let s2 = s1\<lparr>truck_heap := (truck_heap s1)(truck := t)\<rparr> in
          (case r of
             Inl e \<Rightarrow> (Inl e, s2)
           | Inr _ \<Rightarrow>
               (case log_action fs (tracking_id p) None ''TRUCK_LOADED'' s2 of
                  (Inl e, s3) \<Rightarrow> (Inl e, s3)
                | (Inr fs', s3) \<Rightarrow> apply_chosen fs' truck ps s3)))"

text \<open>
  \<open>load_fragile\<close> returns the chosen list. \<open>try_load\<close> runs outside the \<open>try\<close> block,
  so an exception of it leaves the method; the bare \<open>except\<close> catches everything raised
  while the chosen packages are applied. \<open>frames\<close> is the room on the call stack at the
  call of \<open>try_load\<close>.
\<close>

definition load_fragile ::
  "nat \<Rightarrow> bool list \<Rightarrow> truck_ref \<Rightarrow> Package list \<Rightarrow> Controller \<Rightarrow>
   (error + Package list) \<times> Controller" where
  "load_fragile frames fs truck fragile_pkgs s =
     (case try_load frames fragile_pkgs 0 (remaining_space (truck_heap s truck)) [] of
        (Inl e, _) \<Rightarrow> (Inl e, s)
      | (Inr False, _) \<Rightarrow> (Inr [], s)
      | (Inr True, chosen) \<Rightarrow>
          (case apply_chosen fs truck chosen s of
             (Inl e, s1) \<Rightarrow> (Inr chosen, db_rollback s1)
           | (Inr fs1, s1) \<Rightarrow>
               (case db_commit fs1 s1 of
                  (Inl e, s2) \<Rightarrow> (Inr chosen, db_rollback s2)
                | (Inr _, s2) \<Rightarrow> (Inr chosen, s2))))"

subsection \<open>The commit ledger\<close>

text \<open>
  The \<open>while\<close> loop of \<open>rollback\<close>; \<open>count\<close> is \<open>None\<close> or an integer, \<open>removed\<close>
  counts the iterations.
\<close>

function rollback_loop ::
  "int option \<Rightarrow> int \<Rightarrow> bool list \<Rightarrow> Controller \<Rightarrow> (error + bool list) \<times> Controller" where
  "rollback_loop count removed fs s =
     (if stack_loading s \<noteq> [] \<and> (case count of None \<Rightarrow> True | Some c \<Rightarrow> removed < c) then
        (case last (stack_loading s) of
           (truck, pkg) \<Rightarrow>
             let s1 = s\<lparr>stack_loading := butlast (stack_loading s)\<rparr>;
                 s2 = s1\<lparr>truck_heap :=
                        (truck_heap s1)(truck := free_space (truck_heap s1 truck) (size_pkg pkg))\<rparr>
             in
             (case log_action fs (tracking_id pkg) None ''ROLLBACK'' s2 of
                (Inl e, s3) \<Rightarrow> (Inl e, s3)
              | (Inr fs', s3) \<Rightarrow> rollback_loop count (removed + 1) fs' s3))
      else (Inr fs, s))"
  by pat_completeness auto
termination
  by (relation "measure (\<lambda>(count, removed, fs, s). length (stack_loading s))")
     (auto simp: log_action_def split: list.splits bool.splits)

declare rollback_loop.simps [simp del]

definition rollback :: "bool list \<Rightarrow> int option \<Rightarrow> Controller \<Rightarrow> Controller" where
  "rollback fs count s =
     (case rollback_loop count 0 fs s of
        (Inl e, s1) \<Rightarrow> db_rollback s1
      | (Inr fs1, s1) \<Rightarrow>
          (case db_commit fs1 s1 of
             (Inl e, s2) \<Rightarrow> db_rollback s2
           | (Inr _, s2) \<Rightarrow> s2))"

section \<open>Descriptions used in the statements\<close>

subsection \<open>The container invariant\<close>

text \<open>The invariant of the data model: used space lies between 0 and the capacity.\<close>

definition unit_inv :: "'a StorageUnit_scheme \<Rightarrow> bool" where
  "unit_inv u = (0 \<le> used_space u \<and> used_space u \<le> capacity u)"

subsection \<open>The loader, in the words of its description\<close>

text \<open>
  The subsets of a candidate list in the order of a depth-first traversal that tries
  to include an item before it tries to exclude it, and the first of them that is not
  empty and whose total size is within the budget.
\<close>

definition total_size :: "Package list \<Rightarrow> int" where
  "total_size ps = sum_list (map size_pkg ps)"

fun include_first_subsets :: "'a list \<Rightarrow> 'a list list" where
  "include_first_subsets [] = [[]]"
| "include_first_subsets (x # xs) =
     map ((#) x) (include_first_subsets xs) @ include_first_subsets xs"

definition first_feasible_subset :: "int \<Rightarrow> Package list \<Rightarrow> Package list option" where
  "first_feasible_subset budget pkgs =
     List.find (\<lambda>ys. ys \<noteq> [] \<and> total_size ys \<le> budget) (include_first_subsets pkgs)"

text \<open>
  Packages that fit one after the other: each is at most the space that its
  predecessors leave, and the space left at the end is not negative.
\<close>

fun fits :: "Package list \<Rightarrow> int \<Rightarrow> bool" where
  "fits [] space = (0 \<le> space)"
| "fits (p # ps) space = (size_pkg p \<le> space \<and> fits ps (space - size_pkg p))"

text \<open>
  The in-memory effect of loading the packages \<open>ps\<close> on a truck: a ledger entry for
  each, in order, and their total size added to the used space of the truck.
\<close>

definition loaded_record :: "Package \<Rightarrow> audit_record" where
  "loaded_record p = (tracking_id p, None, ''TRUCK_LOADED'')"

definition loaded :: "Package list \<Rightarrow> truck_ref \<Rightarrow> Controller \<Rightarrow> Controller" where
  "loaded ps truck s =
     s\<lparr>stack_loading := stack_loading s @ map (Pair truck) ps,
       truck_heap := (truck_heap s)
         (truck := (truck_heap s truck)
            \<lparr>used_space := used_space (truck_heap s truck) + total_size ps\<rparr>)\<rparr>"

subsection \<open>The ledger, in the words of its description\<close>

text \<open>
  Undoing one ledger entry releases the size of its package from its truck and writes an
  audit record tagged \<open>ROLLBACK\<close>. \<open>undone k s\<close> is the state \<open>s\<close> with its \<open>k\<close> most
  recent entries popped and undone, the most recent first, and the audit batch committed.
\<close>

definition release_entry ::
  "truck_ref \<times> Package \<Rightarrow> (truck_ref \<Rightarrow> Truck) \<Rightarrow> (truck_ref \<Rightarrow> Truck)" where
  "release_entry e heap =
     (case e of (truck, pkg) \<Rightarrow> heap(truck := free_space (heap truck) (size_pkg pkg)))"

definition rollback_record :: "truck_ref \<times> Package \<Rightarrow> audit_record" where
  "rollback_record e = (case e of (truck, pkg) \<Rightarrow> (tracking_id pkg, None, ''ROLLBACK''))"

definition undone :: "nat \<Rightarrow> Controller \<Rightarrow> Controller" where
  "undone k s =
     s\<lparr>stack_loading := take (length (stack_loading s) - k) (stack_loading s),
       truck_heap := fold release_entry (take k (rev (stack_loading s))) (truck_heap s),
       shipment_logs := shipment_logs s @ db_pending s @
                          map rollback_record (take k (rev (stack_loading s))),
       db_pending := []\<rparr>"

subsection \<open>The inputs of the demo\<close>

text \<open>The truck and the packages that \<open>main\<close> creates.\<close>

definition fresh_truck :: Truck where
  "fresh_truck = new_Truck ''T101'' 40"

definition p1 :: Package where
  "p1 = \<lparr>tracking_id = ''P001'', size_pkg = 5, destination = ''Delhi''\<rparr>"

definition p2 :: Package where
  "p2 = \<lparr>tracking_id = ''P002'', size_pkg = 12, destination = ''Mumbai''\<rparr>"

definition p3 :: Package where
  "p3 = \<lparr>tracking_id = ''P003'', size_pkg = 8, destination = ''Chennai''\<rparr>"

definition p4 :: Package where
  "p4 = \<lparr>tracking_id = ''P004'', size_pkg = 25, destination = ''Kolkata''\<rparr>"

definition p5 :: Package where
  "p5 = \<lparr>tracking_id = ''P005'', size_pkg = 9, destination = ''Bangalore''\<rparr>"

text \<open>A truck that has accepted a package of size -5: its used space is negative.\<close>

definition overdrawn_truck :: Truck where
  "overdrawn_truck = snd (occupy_space fresh_truck (- 5))"

text \<open>The bin list of a controller that starts on an empty \<open>bin_configuration\<close> table.\<close>

definition demo_bins :: "StorageBin list" where
  "demo_bins = load_bins_from_db []"

text \<open>
  The run of \<open>main\<close> on an empty database with an audit store that does not fail: the
  controller after the five packages are queued, after two and after five calls of
  \<open>process_package\<close>, and after the three fragile packages are loaded on the truck, which
  is the object at reference 0, with the call stack of the default recursion limit.
\<close>

definition main_after_ingest :: Controller where
  "main_after_ingest =
     fold add_package [p1, p2, p3, p4, p5] (new_Controller [] [] (\<lambda>_. fresh_truck))"

definition main_after_two :: Controller where
  "main_after_two = (process_package [] ^^ 2) main_after_ingest"

definition main_after_placement :: Controller where
  "main_after_placement = (process_package [] ^^ 5) main_after_ingest"

definition main_after_loading :: Controller where
  "main_after_loading = snd (load_fragile 1000 [] 0 [p1, p3, p5] main_after_placement)"

text \<open>A candidate list of a thousand packages of size 5.\<close>

definition thousand_candidates :: "Package list" where
  "thousand_candidates = replicate 1000 p1"

text \<open>A package that is larger than every bin, queued on a fresh controller.\<close>

definition p6 :: Package where
  "p6 = \<lparr>tracking_id = ''P006'', size_pkg = 150, destination = ''Pune''\<rparr>"

definition oversize_queued :: Controller where
  "oversize_queued = add_package p6 (new_Controller [] [] (\<lambda>_. fresh_truck))"

section \<open>Containers\<close>

text \<open>
  Claim C7, as stated: for every container the invariant \<open>0 \<le> used \<le> capacity\<close> holds
  initially and is preserved by every operation. It fails for a negative amount:
  \<open>occupy_space\<close> checks the upper bound only, so reserving -5 on the fresh truck succeeds
  and leaves the used space at -5; and \<open>free_space\<close> of -5 on a truck that holds 38 of
  40 leaves it at 43.
\<close>

theorem container_invariant_counterexample:
  "unit_inv fresh_truck \<and> fst (occupy_space fresh_truck (- 5)) = Inr () \<and>
   \<not> unit_inv (snd (occupy_space fresh_truck (- 5))) \<and>
   unit_inv (fresh_truck\<lparr>used_space := 38\<rparr>) \<and>
   \<not> unit_inv (free_space (fresh_truck\<lparr>used_space := 38\<rparr>) (- 5))"
  by (simp add: unit_inv_def fresh_truck_def new_Truck_def occupy_space_def free_space_def)

text \<open>
  Claim C7, amended: a container created with a non-negative capacity satisfies the
  invariant, and \<open>occupy_space\<close> and \<open>free_space\<close> preserve it for every non-negative
  amount. For every amount, of either sign, \<open>occupy_space\<close> keeps the used space at or
  below the capacity and rejects, without a change, an amount that would exceed it; and
  \<open>free_space\<close> never leaves the used space negative.
\<close>

theorem container_invariant:
  "(0 \<le> c \<longrightarrow> unit_inv (new_Truck t c) \<and> unit_inv (new_StorageBin b c l)) \<and>
   (unit_inv u \<and> 0 \<le> amount \<longrightarrow>
      unit_inv (snd (occupy_space u amount)) \<and> unit_inv (free_space u amount)) \<and>
   (used_space u \<le> capacity u \<longrightarrow> used_space (snd (occupy_space u amount)) \<le> capacity u) \<and>
   (used_space u + amount > capacity u \<longrightarrow> occupy_space u amount = (Inl ValueError, u)) \<and>
   0 \<le> used_space (free_space u amount)"
  by (auto simp: unit_inv_def new_Truck_def new_StorageBin_def occupy_space_def free_space_def)

theorem container_invariant_witness:
  "(0::int) \<le> 40 \<and> unit_inv fresh_truck \<and> (0::int) \<le> 5 \<and>
   unit_inv (snd (occupy_space fresh_truck 5)) \<and> unit_inv (free_space fresh_truck 5) \<and>
   used_space fresh_truck \<le> capacity fresh_truck \<and>
   used_space fresh_truck + 41 > capacity fresh_truck \<and>
   occupy_space fresh_truck 41 = (Inl ValueError, fresh_truck)"
  using container_invariant [of 40 "''T101''" 1 "''A1''" fresh_truck 5]
    container_invariant [of 40 "''T101''" 1 "''A1''" fresh_truck 41]
  by (simp add: fresh_truck_def new_Truck_def unit_inv_def)

text \<open>
  Claim C8, as stated: for every container state and amount, a successful reserve
  followed by a release of the same amount restores the remaining space. It fails on a
  container whose used space is negative: the fresh truck of capacity 40 accepts a reserve
  of -5, which leaves 45 units remaining; reserving 3 then succeeds, and releasing 3
  clamps the used space to 0, which leaves 40.
\<close>

theorem reserve_release_counterexample:
  "occupy_space fresh_truck (- 5) = (Inr (), overdrawn_truck) \<and>
   used_space overdrawn_truck = - 5 \<and>
   fst (occupy_space overdrawn_truck 3) = Inr () \<and>
   remaining_space overdrawn_truck = 45 \<and>
   remaining_space (free_space (snd (occupy_space overdrawn_truck 3)) 3) = 40 \<and>
   remaining_space (free_space (snd (occupy_space overdrawn_truck 3)) 3) \<noteq>
     remaining_space overdrawn_truck"
  by (simp add: overdrawn_truck_def fresh_truck_def new_Truck_def occupy_space_def
      free_space_def remaining_space_def)

text \<open>
  Claim C8, amended: for every container state and amount, \<open>occupy_space\<close> raises
  exactly when \<open>used + amount > capacity\<close> and then leaves the container unchanged;
  otherwise it adds the amount to the used space, so that the remaining space is
  \<open>capacity - used - amount\<close>; and when the used space was not negative before the
  reserve, a release of the same amount restores the remaining space.
\<close>

theorem reserve_release:
  "(fst (occupy_space u amount) = Inl ValueError \<longleftrightarrow> used_space u + amount > capacity u) \<and>
   (fst (occupy_space u amount) = Inl ValueError \<longrightarrow> snd (occupy_space u amount) = u) \<and>
   (fst (occupy_space u amount) \<noteq> Inl ValueError \<longrightarrow>
      occupy_space u amount = (Inr (), u\<lparr>used_space := used_space u + amount\<rparr>) \<and>
      remaining_space (snd (occupy_space u amount)) = capacity u - used_space u - amount \<and>
      (0 \<le> used_space u \<longrightarrow>
         remaining_space (free_space (snd (occupy_space u amount)) amount) = remaining_space u))"
  by (auto simp: occupy_space_def free_space_def remaining_space_def)

theorem reserve_release_witness:
  "fst (occupy_space fresh_truck 41) = Inl ValueError \<and>
   snd (occupy_space fresh_truck 41) = fresh_truck \<and>
   fst (occupy_space fresh_truck 5) \<noteq> Inl ValueError \<and> 0 \<le> used_space fresh_truck \<and>
   remaining_space (snd (occupy_space fresh_truck 5)) = 35 \<and>
   remaining_space (free_space (snd (occupy_space fresh_truck 5)) 5) = remaining_space fresh_truck"
  using reserve_release [of fresh_truck 41] reserve_release [of fresh_truck 5]
  by (simp add: fresh_truck_def new_Truck_def)

section \<open>The allocation index\<close>

lemma py_pos_in_range: "0 \<le> i \<Longrightarrow> i < int (length xs) \<Longrightarrow> py_pos xs i = Inr (nat i)"
  by (simp add: py_pos_def)

lemma py_pos_length: "length xs = length ys \<Longrightarrow> py_pos xs i = py_pos ys i"
  by (simp add: py_pos_def)

lemma py_pos_bound: "py_pos xs i = Inr k \<Longrightarrow> k < length xs"
  by (auto simp: py_pos_def Let_def split: if_splits)

lemma bs_loop_capacity_only:
  "map capacity bins1 = map capacity bins2 \<Longrightarrow>
   bs_loop bins1 sz low high ans = bs_loop bins2 sz low high ans"
proof (induction bins1 sz low high ans rule: bs_loop.induct)
  case (1 bins sz low high ans)
  have len: "length bins = length bins2" using "1.prems" by (metis length_map)
  have nth: "\<And>k. k < length bins \<Longrightarrow> capacity (bins ! k) = capacity (bins2 ! k)"
    using "1.prems" by (metis nth_map len)
  show ?case
  proof (cases "low \<le> high")
    case False
    then show ?thesis by (simp add: bs_loop.simps)
  next
    case True
    let ?mid = "(low + high) div 2"
    have pos: "py_pos bins2 ?mid = py_pos bins ?mid" by (rule py_pos_length) (simp add: len)
    show ?thesis
    proof (cases "py_pos bins ?mid")
      case (Inl e)
      with True pos show ?thesis
        by (simp add: bs_loop.simps[of bins sz low high] bs_loop.simps[of bins2 sz low high])
    next
      case (Inr k)
      have cap: "capacity (bins2 ! k) = capacity (bins ! k)"
        using nth py_pos_bound[OF Inr] by simp
      show ?thesis
        using True Inr pos cap "1.IH"(1)[OF True refl Inr _ "1.prems"]
          "1.IH"(2)[OF True refl Inr _ "1.prems"]
        by (auto simp: Let_def bs_loop.simps[of bins sz low high] bs_loop.simps[of bins2 sz low high])
    qed
  qed
qed

lemma bs_loop_first_fit:
  assumes "sorted (map capacity bins)"
    and "0 \<le> low" and "high < int (length bins)" and "low \<le> high + 1"
    and "\<forall>j. int j < low \<longrightarrow> capacity (bins ! j) < sz"
    and "\<forall>j. high < int j \<and> j < length bins \<longrightarrow> sz \<le> capacity (bins ! j)"
    and "ans = (if high = int (length bins) - 1 then - 1 else high + 1)"
  shows "\<exists>r. bs_loop bins sz low high ans = Inr r \<and>
           (if \<forall>j<length bins. capacity (bins ! j) < sz then r = - 1
            else 0 \<le> r \<and> r < int (length bins) \<and> sz \<le> capacity (bins ! nat r) \<and>
                 (\<forall>j. int j < r \<longrightarrow> capacity (bins ! j) < sz))"
  using assms
proof (induction bins sz low high ans rule: bs_loop.induct)
  case (1 bins sz low high ans)
  have mono: "\<And>i j. i \<le> j \<Longrightarrow> j < length bins \<Longrightarrow> capacity (bins ! i) \<le> capacity (bins ! j)"
    using "1.prems"(1) by (simp add: sorted_iff_nth_mono)
  show ?case
  proof (cases "low \<le> high")
    case False
    with "1.prems" have eq: "low = high + 1" by simp
    have res: "bs_loop bins sz low high ans = Inr ans"
      using False by (simp add: bs_loop.simps[of bins sz low high])
    show ?thesis
    proof (cases "high = int (length bins) - 1")
      case True
      with eq "1.prems" show ?thesis
        unfolding res by simp
    next
      case hl: False
      with "1.prems" have lt: "nat low < length bins" using eq by auto
      have ge: "sz \<le> capacity (bins ! nat low)"
        using "1.prems"(6) lt eq "1.prems"(2) by auto
      have "\<not> (\<forall>j<length bins. capacity (bins ! j) < sz)"
        using lt ge by (metis not_less)
      with eq "1.prems" hl lt ge show ?thesis
        unfolding res by simp
    qed
  next
    case True
    define mid where "mid = (low + high) div 2"
    have m: "low \<le> mid" "mid \<le> high" using True by (auto simp: mid_def)
    then have mr: "0 \<le> mid" "mid < int (length bins)" "nat mid < length bins"
      using "1.prems" by auto
    have idx: "py_pos bins mid = Inr (nat mid)"
      using mr by (simp add: py_pos_in_range)
    show ?thesis
    proof (cases "sz \<le> capacity (bins ! nat mid)")
      case ge: True
      have up: "\<forall>j. mid - 1 < int j \<and> j < length bins \<longrightarrow> sz \<le> capacity (bins ! j)"
      proof (intro allI impI)
        fix j assume "mid - 1 < int j \<and> j < length bins"
        then have "nat mid \<le> j" "j < length bins" by auto
        from mono[OF this] ge show "sz \<le> capacity (bins ! j)" by simp
      qed
      have "\<exists>r. bs_loop bins sz low (mid - 1) mid = Inr r \<and>
           (if \<forall>j<length bins. capacity (bins ! j) < sz then r = - 1
            else 0 \<le> r \<and> r < int (length bins) \<and> sz \<le> capacity (bins ! nat r) \<and>
                 (\<forall>j. int j < r \<longrightarrow> capacity (bins ! j) < sz))"
        using "1.IH"(1)[OF True mid_def idx ge] "1.prems" m mr up
        by simp
      then show ?thesis
        using True idx ge by (simp add: bs_loop.simps[of bins sz low high] mid_def[symmetric] Let_def)
    next
      case lt: False
      have lo: "\<forall>j. int j < mid + 1 \<longrightarrow> capacity (bins ! j) < sz"
      proof (intro allI impI)
        fix j assume "int j < mid + 1"
        then have "j \<le> nat mid" by auto
        from mono[OF this mr(3)] lt show "capacity (bins ! j) < sz" by simp
      qed
      have "\<exists>r. bs_loop bins sz (mid + 1) high ans = Inr r \<and>
           (if \<forall>j<length bins. capacity (bins ! j) < sz then r = - 1
            else 0 \<le> r \<and> r < int (length bins) \<and> sz \<le> capacity (bins ! nat r) \<and>
                 (\<forall>j. int j < r \<longrightarrow> capacity (bins ! j) < sz))"
        using "1.IH"(2)[OF True mid_def idx lt] "1.prems" m mr lo
        by simp
      then show ?thesis
        using True idx lt by (simp add: bs_loop.simps[of bins sz low high] mid_def[symmetric] Let_def)
    qed
  qed
qed

lemma find_best_fit_bin_first_fit:
  assumes "sorted (map capacity bins)"
  shows "\<exists>r. find_best_fit_bin bins sz = Inr r \<and>
           (if \<forall>j<length bins. capacity (bins ! j) < sz then r = - 1
            else 0 \<le> r \<and> r < int (length bins) \<and> sz \<le> capacity (bins ! nat r) \<and>
                 (\<forall>j. int j < r \<longrightarrow> capacity (bins ! j) < sz))"
  unfolding find_best_fit_bin_def
  by (rule bs_loop_first_fit[OF assms]) auto

lemma demo_bins_eq:
  "demo_bins = [new_StorageBin 1 10 ''A1'', new_StorageBin 2 20 ''A2'',
                new_StorageBin 3 50 ''B1'', new_StorageBin 4 100 ''B2'']"
  by (simp add: demo_bins_def load_bins_from_db_def demo_def new_StorageBin_def)

text \<open>
  Claim C2: on a bin list sorted ascending by capacity, \<open>find_best_fit_bin\<close> returns
  without an exception; it returns -1 exactly when no bin has a capacity of at least the
  size; otherwise it returns an index of the list whose bin has a capacity of at least the
  size, the smallest such capacity in the list, and the lowest index among the bins of
  that capacity.
\<close>

theorem best_fit_correct:
  assumes "sorted (map capacity bins)"
  shows "\<exists>r. find_best_fit_bin bins sz = Inr r \<and>
           (if \<forall>j<length bins. capacity (bins ! j) < sz then r = - 1
            else 0 \<le> r \<and> r < int (length bins) \<and> sz \<le> capacity (bins ! nat r) \<and>
              (\<forall>j<length bins. sz \<le> capacity (bins ! j) \<longrightarrow>
                 capacity (bins ! nat r) \<le> capacity (bins ! j)) \<and>
              (\<forall>j<length bins. capacity (bins ! j) = capacity (bins ! nat r) \<longrightarrow> nat r \<le> j))"
proof -
  from find_best_fit_bin_first_fit[OF assms, of sz] obtain r where
    r: "find_best_fit_bin bins sz = Inr r"
    and p: "if \<forall>j<length bins. capacity (bins ! j) < sz then r = - 1
            else 0 \<le> r \<and> r < int (length bins) \<and> sz \<le> capacity (bins ! nat r) \<and>
                 (\<forall>j. int j < r \<longrightarrow> capacity (bins ! j) < sz)"
    by blast
  show ?thesis
  proof (cases "\<forall>j<length bins. capacity (bins ! j) < sz")
    case True
    from p have "r = - 1" unfolding if_P[OF True] .
    with r show ?thesis unfolding if_P[OF True] by simp
  next
    case False
    from p[unfolded if_not_P[OF False]] have q: "0 \<le> r" "r < int (length bins)" "sz \<le> capacity (bins ! nat r)"
      "\<And>j. int j < r \<Longrightarrow> capacity (bins ! j) < sz" by auto
    have left: "nat r \<le> j" if "sz \<le> capacity (bins ! j)" for j
      using q(4)[of j] that q(1) by (cases "int j < r") auto
    have small: "capacity (bins ! nat r) \<le> capacity (bins ! j)"
      if "j < length bins" "sz \<le> capacity (bins ! j)" for j
      using assms left[OF that(2)] that(1) by (simp add: sorted_iff_nth_mono)
    have tie: "nat r \<le> j" if "capacity (bins ! j) = capacity (bins ! nat r)" for j
      using left[of j] that q(3) by simp
    have "find_best_fit_bin bins sz = Inr r \<and>
        (0 \<le> r \<and> r < int (length bins) \<and> sz \<le> capacity (bins ! nat r) \<and>
         (\<forall>j<length bins. sz \<le> capacity (bins ! j) \<longrightarrow>
            capacity (bins ! nat r) \<le> capacity (bins ! j)) \<and>
         (\<forall>j<length bins. capacity (bins ! j) = capacity (bins ! nat r) \<longrightarrow> nat r \<le> j))"
      using r q(1-3) small tie by blast
    then show ?thesis unfolding if_not_P[OF False] by (rule exI)
  qed
qed

text \<open>
  The hypothesis holds for the bin list of the demo, of capacities 10, 20, 50 and 100; by
  the theorem, size 15 goes to index 1, the bin of capacity 20, and size 150 finds no bin.
\<close>

theorem best_fit_correct_witness:
  "sorted (map capacity demo_bins) \<and> map capacity demo_bins = [10, 20, 50, 100] \<and>
   find_best_fit_bin demo_bins 15 = Inr 1 \<and> capacity (demo_bins ! 1) = 20 \<and>
   find_best_fit_bin demo_bins 150 = Inr (- 1)"
proof -
  have caps: "map capacity demo_bins = [10, 20, 50, 100]"
    by (simp add: demo_bins_eq new_StorageBin_def)
  have len: "length demo_bins = 4" by (simp add: demo_bins_eq)
  have c: "capacity (demo_bins ! 0) = 10" "capacity (demo_bins ! 1) = 20"
    "capacity (demo_bins ! 2) = 50" "capacity (demo_bins ! 3) = 100"
    by (simp_all add: demo_bins_eq new_StorageBin_def)
  have four: "j = 0 \<or> j = 1 \<or> j = 2 \<or> j = 3" if "j < length demo_bins" for j
    using that unfolding len by arith
  have s: "sorted (map capacity demo_bins)" by (simp add: caps)
  have ne: "\<not> (\<forall>j<length demo_bins. capacity (demo_bins ! j) < 15)"
  proof
    assume "\<forall>j<length demo_bins. capacity (demo_bins ! j) < 15"
    then have "capacity (demo_bins ! 1) < 15" unfolding len by (simp del: One_nat_def)
    then show False unfolding c by simp
  qed
  from best_fit_correct[OF s, of 15] obtain r where
    r: "find_best_fit_bin demo_bins 15 = Inr r" and
    p: "0 \<le> r \<and> r < int (length demo_bins) \<and> 15 \<le> capacity (demo_bins ! nat r) \<and>
        (\<forall>j<length demo_bins. 15 \<le> capacity (demo_bins ! j) \<longrightarrow>
           capacity (demo_bins ! nat r) \<le> capacity (demo_bins ! j)) \<and>
        (\<forall>j<length demo_bins. capacity (demo_bins ! j) = capacity (demo_bins ! nat r) \<longrightarrow>
           nat r \<le> j)"
    unfolding if_not_P[OF ne] by blast
  from p have "0 \<le> r" "r < int (length demo_bins)" by blast+
  then have lt: "nat r < length demo_bins" by arith
  from p have "1 < length demo_bins \<longrightarrow> 15 \<le> capacity (demo_bins ! 1) \<longrightarrow>
      capacity (demo_bins ! nat r) \<le> capacity (demo_bins ! 1)"
    by blast
  then have le: "capacity (demo_bins ! nat r) \<le> 20"
    unfolding len c by simp
  from p have ge: "15 \<le> capacity (demo_bins ! nat r)" by blast
  from four[OF lt] have "nat r = 1"
  proof (elim disjE)
    assume "nat r = 0"
    with ge have "15 \<le> capacity (demo_bins ! 0)" by simp
    then show ?thesis by (simp add: c)
  next
    assume "nat r = 2"
    with le have "capacity (demo_bins ! 2) \<le> 20" by simp
    then show ?thesis by (simp add: c)
  next
    assume "nat r = 3"
    with le have "capacity (demo_bins ! 3) \<le> 20" by simp
    then show ?thesis by (simp add: c)
  qed
  with p have "r = 1" by simp
  with r have a: "find_best_fit_bin demo_bins 15 = Inr 1" by simp
  have all: "\<forall>j<length demo_bins. capacity (demo_bins ! j) < 150"
  proof (intro allI impI)
    fix j assume "j < length demo_bins"
    from four[OF this] show "capacity (demo_bins ! j) < 150"
      using c by (elim disjE) (simp_all del: One_nat_def)
  qed
  from best_fit_correct[OF s, of 150] have b: "find_best_fit_bin demo_bins 150 = Inr (- 1)"
    unfolding if_P[OF all] by simp
  from s caps a b c(2) show ?thesis by simp
qed

section \<open>Placement: the cases of \<open>process_package\<close>\<close>

lemma bs_loop_range:
  "0 \<le> low \<Longrightarrow> high < int (length bins) \<Longrightarrow>
   \<exists>r. bs_loop bins sz low high ans = Inr r \<and> (r = ans \<or> 0 \<le> r \<and> r < int (length bins))"
proof (induction bins sz low high ans rule: bs_loop.induct)
  case (1 bins sz low high ans)
  show ?case
  proof (cases "low \<le> high")
    case False
    then show ?thesis by (simp add: bs_loop.simps[of bins sz low high])
  next
    case True
    define mid where "mid = (low + high) div 2"
    have m: "low \<le> mid" "mid \<le> high" using True by (auto simp: mid_def)
    then have mr: "0 \<le> mid" "mid < int (length bins)" using "1.prems" by auto
    have idx: "py_pos bins mid = Inr (nat mid)" using mr by (simp add: py_pos_in_range)
    show ?thesis
    proof (cases "sz \<le> capacity (bins ! nat mid)")
      case ge: True
      from "1.IH"(1)[OF True mid_def idx ge] "1.prems" m mr
      obtain r where "bs_loop bins sz low (mid - 1) mid = Inr r"
        "r = mid \<or> 0 \<le> r \<and> r < int (length bins)" by auto
      then show ?thesis
        using True idx ge mr
        by (auto simp: bs_loop.simps[of bins sz low high] mid_def[symmetric] Let_def)
    next
      case lt: False
      from "1.IH"(2)[OF True mid_def idx lt] "1.prems" m mr
      obtain r where "bs_loop bins sz (mid + 1) high ans = Inr r"
        "r = ans \<or> 0 \<le> r \<and> r < int (length bins)" by auto
      then show ?thesis
        using True idx lt
        by (auto simp: bs_loop.simps[of bins sz low high] mid_def[symmetric] Let_def)
    qed
  qed
qed

lemma find_best_fit_bin_range:
  "\<exists>r. find_best_fit_bin bins sz = Inr r \<and> (r = - 1 \<or> 0 \<le> r \<and> r < int (length bins))"
  unfolding find_best_fit_bin_def by (rule bs_loop_range) simp_all

lemma find_best_fit_bin_pos:
  assumes "find_best_fit_bin bins sz = Inr idx" and "idx \<noteq> - 1"
  shows "py_pos bins idx = Inr (nat idx)" and "nat idx < length bins"
proof -
  from find_best_fit_bin_range[of bins sz] assms
  have "0 \<le> idx" "idx < int (length bins)" by auto
  then show "py_pos bins idx = Inr (nat idx)" "nat idx < length bins"
    by (simp_all add: py_pos_in_range)
qed

lemma try_place_no_bin:
  assumes "find_best_fit_bin (bin_inventory s) (size_pkg pkg) = Inr (- 1)"
  shows "try_place [] pkg s =
           (Inr [], s\<lparr>shipment_logs := shipment_logs s @ db_pending s @ [(tracking_id pkg, None, ''NO_BIN'')],
                      db_pending := []\<rparr>)"
  using assms by (simp add: try_place_def log_action_def db_commit_def)

lemma try_place_full:
  assumes "find_best_fit_bin (bin_inventory s) (size_pkg pkg) = Inr idx" and "idx \<noteq> - 1"
    and "used_space (bin_inventory s ! nat idx) + size_pkg pkg > capacity (bin_inventory s ! nat idx)"
  shows "try_place fs pkg s = (Inl ValueError, s)"
  using assms find_best_fit_bin_pos[OF assms(1,2)]
  by (simp add: try_place_def occupy_space_def)


lemma process_package_reserve_fails:
  assumes "queue_incoming s = pkg # rest"
    and "find_best_fit_bin (bin_inventory s) (size_pkg pkg) = Inr idx" and "idx \<noteq> - 1"
    and "used_space (bin_inventory s ! nat idx) + size_pkg pkg > capacity (bin_inventory s ! nat idx)"
  shows "process_package fs s = s\<lparr>queue_incoming := rest, db_pending := []\<rparr>"
proof -
  let ?s = "s\<lparr>queue_incoming := rest\<rparr>"
  have "try_place fs pkg ?s = (Inl ValueError, ?s)"
    by (rule try_place_full[where idx = idx]) (use assms in simp_all)
  then show ?thesis using assms(1) by (simp add: process_package_def db_rollback_def)
qed

lemma process_package_no_bin:
  assumes "queue_incoming s = pkg # rest"
    and "find_best_fit_bin (bin_inventory s) (size_pkg pkg) = Inr (- 1)"
  shows "process_package [] s =
           s\<lparr>queue_incoming := rest,
             shipment_logs := shipment_logs s @ db_pending s @ [(tracking_id pkg, None, ''NO_BIN'')],
             db_pending := []\<rparr>"
proof -
  let ?s = "s\<lparr>queue_incoming := rest\<rparr>"
  have "find_best_fit_bin (bin_inventory ?s) (size_pkg pkg) = Inr (- 1)" using assms(2) by simp
  from try_place_no_bin[OF this] show ?thesis
    using assms(1) by (simp add: process_package_def)
qed

lemma try_place_fits:
  assumes "find_best_fit_bin (bin_inventory s) (size_pkg pkg) = Inr idx" and "idx \<noteq> - 1"
    and "used_space (bin_inventory s ! nat idx) + size_pkg pkg \<le> capacity (bin_inventory s ! nat idx)"
  shows "try_place fs pkg s =
      (case log_action fs (tracking_id pkg) (Some (bin_id (bin_inventory s ! nat idx))) ''BIN_ASSIGNED''
              (s\<lparr>bin_inventory := (bin_inventory s)
                    [nat idx := (bin_inventory s ! nat idx)
                       \<lparr>used_space := used_space (bin_inventory s ! nat idx) + size_pkg pkg\<rparr>]\<rparr>) of
         (Inl e, s2) \<Rightarrow> (Inl e, s2)
       | (Inr fs', s2) \<Rightarrow> db_commit fs' s2)"
  using assms find_best_fit_bin_pos[OF assms(1,2)]
  by (simp add: try_place_def occupy_space_def)

lemma process_package_fault:
  assumes "queue_incoming s = pkg # rest"
    and "find_best_fit_bin (bin_inventory s) (size_pkg pkg) = Inr idx" and "idx \<noteq> - 1"
    and "used_space (bin_inventory s ! nat idx) + size_pkg pkg \<le> capacity (bin_inventory s ! nat idx)"
    and "fs = True # fs' \<or> fs = False # True # fs'"
  shows "process_package fs s =
           s\<lparr>queue_incoming := rest,
             bin_inventory := (bin_inventory s)
               [nat idx := (bin_inventory s ! nat idx)
                  \<lparr>used_space := used_space (bin_inventory s ! nat idx) + size_pkg pkg\<rparr>],
             db_pending := []\<rparr>"
proof -
  let ?s = "s\<lparr>queue_incoming := rest\<rparr>"
  have "try_place fs pkg ?s = (case log_action fs (tracking_id pkg) (Some (bin_id (bin_inventory ?s ! nat idx))) ''BIN_ASSIGNED''
              (?s\<lparr>bin_inventory := (bin_inventory ?s)
                    [nat idx := (bin_inventory ?s ! nat idx)
                       \<lparr>used_space := used_space (bin_inventory ?s ! nat idx) + size_pkg pkg\<rparr>]\<rparr>) of
         (Inl e, s2) \<Rightarrow> (Inl e, s2)
       | (Inr fs', s2) \<Rightarrow> db_commit fs' s2)"
    by (rule try_place_fits) (use assms in simp_all)
  then show ?thesis using assms(1,5)
    by (auto simp: process_package_def db_rollback_def log_action_def db_commit_def)
qed

lemma process_package_placed:
  assumes "queue_incoming s = pkg # rest"
    and "find_best_fit_bin (bin_inventory s) (size_pkg pkg) = Inr idx" and "idx \<noteq> - 1"
    and "used_space (bin_inventory s ! nat idx) + size_pkg pkg \<le> capacity (bin_inventory s ! nat idx)"
  shows "process_package [] s =
           s\<lparr>queue_incoming := rest,
             bin_inventory := (bin_inventory s)
               [nat idx := (bin_inventory s ! nat idx)
                  \<lparr>used_space := used_space (bin_inventory s ! nat idx) + size_pkg pkg\<rparr>],
             shipment_logs := shipment_logs s @ db_pending s @
               [(tracking_id pkg, Some (bin_id (bin_inventory s ! nat idx)), ''BIN_ASSIGNED'')],
             db_pending := []\<rparr>"
proof -
  let ?s = "s\<lparr>queue_incoming := rest\<rparr>"
  have "try_place [] pkg ?s = (case log_action [] (tracking_id pkg) (Some (bin_id (bin_inventory ?s ! nat idx))) ''BIN_ASSIGNED''
              (?s\<lparr>bin_inventory := (bin_inventory ?s)
                    [nat idx := (bin_inventory ?s ! nat idx)
                       \<lparr>used_space := used_space (bin_inventory ?s ! nat idx) + size_pkg pkg\<rparr>]\<rparr>) of
         (Inl e, s2) \<Rightarrow> (Inl e, s2)
       | (Inr fs', s2) \<Rightarrow> db_commit fs' s2)"
    by (rule try_place_fits) (use assms in simp_all)
  then show ?thesis using assms(1) find_best_fit_bin_pos[OF assms(2,3)]
    by (simp add: process_package_def log_action_def db_commit_def)
qed

section \<open>The loader: lemmas\<close>

lemma find_append:
  "List.find P (xs @ ys) = (case List.find P xs of None \<Rightarrow> List.find P ys | Some x \<Rightarrow> Some x)"
  by (induction xs) auto

lemma find_map: "List.find P (map f xs) = map_option f (List.find (\<lambda>x. P (f x)) xs)"
  by (induction xs) auto

lemma include_first_subsets_subseqs: "include_first_subsets xs = subseqs xs"
  by (induction xs) (simp_all add: Let_def)

lemma total_size_simps [simp]:
  "total_size [] = 0" "total_size (p # ps) = size_pkg p + total_size ps"
  "total_size (ps @ qs) = total_size ps + total_size qs"
  by (simp_all add: total_size_def)

lemma total_size_nonneg: "\<forall>p\<in>set ps. 0 \<le> size_pkg p \<Longrightarrow> 0 \<le> total_size ps"
  by (induction ps) auto

lemma subset_total_nonneg:
  "\<forall>p\<in>set xs. 0 \<le> size_pkg p \<Longrightarrow> ys \<in> set (include_first_subsets xs) \<Longrightarrow> 0 \<le> total_size ys"
  by (induction xs arbitrary: ys) auto

lemma fits_total: "fits ps space \<Longrightarrow> total_size ps \<le> space"
  by (induction ps arbitrary: space) force+

text \<open>
  What a call of the loader that returns has done, for packages of any size: on \<open>True\<close>
  it has added packages that fit one after the other, on \<open>False\<close> it has restored the
  chosen list.
\<close>

lemma try_load_result:
  "try_load d pkgs i space chosen = (Inr b, ch) \<Longrightarrow>
   (if b then \<exists>added. ch = chosen @ added \<and> fits added space \<and> ch \<noteq> [] else ch = chosen)"
proof (induction d arbitrary: i space chosen b ch)
  case 0
  then show ?case by (simp add: try_load.simps)
next
  case (Suc d)
  note eq = Suc.prems[unfolded try_load.simps(2)[of d pkgs i space chosen]]
  show ?case
  proof (cases "i = length pkgs")
    case True
    with eq show ?thesis by auto
  next
    case False
    with eq obtain k where k: "py_pos pkgs (int i) = Inr k"
      by (cases "py_pos pkgs (int i)") auto
    define x where "x = pkgs ! k"
    show ?thesis
    proof (cases "size_pkg x \<le> space")
      case le: True
      obtain r1 ch1 where r1: "try_load d pkgs (i + 1) (space - size_pkg x) (chosen @ [x]) = (r1, ch1)"
        by (cases "try_load d pkgs (i + 1) (space - size_pkg x) (chosen @ [x])")
      show ?thesis
      proof (cases r1)
        case (Inl e)
        with eq False k le r1 show ?thesis by (simp add: x_def[symmetric])
      next
        case (Inr b1)
        from Suc.IH[OF r1[unfolded Inr]]
        have p1: "if b1 then \<exists>added. ch1 = (chosen @ [x]) @ added \<and> fits added (space - size_pkg x) \<and> ch1 \<noteq> []
                  else ch1 = chosen @ [x]" .
        show ?thesis
        proof (cases b1)
          case True
          with p1 obtain added where a: "ch1 = chosen @ x # added" "fits added (space - size_pkg x)"
            by auto
          from eq False k le r1 Inr True have "b = True" "ch = ch1"
            by (simp_all add: x_def[symmetric])
          moreover have "fits (x # added) space" using a(2) le by simp
          ultimately show ?thesis using a(1) by auto
        next
          case b1f: False
          with p1 have c1: "ch1 = chosen @ [x]" by simp
          from eq False k le r1 Inr b1f c1
          have "try_load d pkgs (i + 1) space chosen = (Inr b, ch)"
            by (simp add: x_def[symmetric])
          from Suc.IH[OF this] show ?thesis .
        qed
      qed
    next
      case gt: False
      from eq False k gt have "try_load d pkgs (i + 1) space chosen = (Inr b, ch)"
        by (simp add: x_def[symmetric])
      from Suc.IH[OF this] show ?thesis .
    qed
  qed
qed

lemma try_load_success:
  assumes "try_load d pkgs i space chosen0 = (Inr True, ch)"
  shows "\<exists>added. ch = chosen0 @ added \<and> fits added space"
  using try_load_result[OF assms] by auto

text \<open>The only exceptions of the loader are those of the interpreter.\<close>

lemma try_load_exceptions:
  "try_load d pkgs i space chosen = (Inl e, ch) \<Longrightarrow> e = RecursionError \<or> e = IndexError"
proof (induction d arbitrary: i space chosen e ch)
  case 0
  then show ?case by (simp add: try_load.simps)
next
  case (Suc d)
  note eq = Suc.prems[unfolded try_load.simps(2)[of d pkgs i space chosen]]
  show ?case
  proof (cases "i = length pkgs")
    case True
    with eq show ?thesis by auto
  next
    case False
    show ?thesis
    proof (cases "py_pos pkgs (int i)")
      case (Inl e')
      with eq False show ?thesis by (auto simp: py_pos_def Let_def split: if_splits)
    next
      case (Inr k)
      define x where "x = pkgs ! k"
      show ?thesis
      proof (cases "size_pkg x \<le> space")
        case le: True
        obtain r1 ch1 where r1: "try_load d pkgs (i + 1) (space - size_pkg x) (chosen @ [x]) = (r1, ch1)"
          by (cases "try_load d pkgs (i + 1) (space - size_pkg x) (chosen @ [x])")
        show ?thesis
        proof (cases r1)
          case (Inl e1)
          with eq False Inr le r1 have "e = e1" by (simp add: x_def[symmetric])
          with Suc.IH[OF r1[unfolded Inl]] show ?thesis by simp
        next
          case b: (Inr b1)
          show ?thesis
          proof (cases b1)
            case True
            with eq False Inr le r1 b show ?thesis by (simp add: x_def[symmetric])
          next
            case b1f: False
            show ?thesis
            proof (cases "ch1 = []")
              case True
              with eq False Inr le r1 b b1f show ?thesis by (simp add: x_def[symmetric])
            next
              case ne: False
              with eq False Inr le r1 b b1f
              have "try_load d pkgs (i + 1) space (butlast ch1) = (Inl e, ch)"
                by (simp add: x_def[symmetric])
              from Suc.IH[OF this] show ?thesis .
            qed
          qed
        qed
      next
        case gt: False
        with eq False Inr have "try_load d pkgs (i + 1) space chosen = (Inl e, ch)"
          by (simp add: x_def[symmetric])
        from Suc.IH[OF this] show ?thesis .
      qed
    qed
  qed
qed

text \<open>
  The first descent of the loader reaches the end of the list: it needs one frame more
  than there are candidates left, and raises \<open>RecursionError\<close> with fewer.
\<close>

lemma try_load_overflow:
  "i \<le> length pkgs \<Longrightarrow> d \<le> length pkgs - i \<Longrightarrow>
   fst (try_load d pkgs i space chosen) = Inl RecursionError"
proof (induction d arbitrary: i space chosen)
  case 0
  then show ?case by (simp add: try_load.simps)
next
  case (Suc d)
  then have lt: "i < length pkgs" and d: "d \<le> length pkgs - Suc i" and le: "Suc i \<le> length pkgs"
    by simp_all
  have pos: "py_pos pkgs (int i) = Inr i" using lt by (simp add: py_pos_def)
  define x where "x = pkgs ! i"
  have a: "fst (try_load d pkgs (Suc i) sp c) = Inl RecursionError" for sp c
    using Suc.IH[OF le d] .
  show ?case
  proof (cases "size_pkg x \<le> space")
    case True
    obtain ch1 where "try_load d pkgs (Suc i) (space - size_pkg x) (chosen @ [x]) = (Inl RecursionError, ch1)"
      using a[of "space - size_pkg x" "chosen @ [x]"]
      by (cases "try_load d pkgs (Suc i) (space - size_pkg x) (chosen @ [x])") auto
    with True lt pos show ?thesis
      unfolding try_load.simps(2)[of d pkgs i space chosen] by (simp add: x_def[symmetric])
  next
    case False
    with lt pos a[of space chosen] show ?thesis
      unfolding try_load.simps(2)[of d pkgs i space chosen] by (simp add: x_def[symmetric])
  qed
qed

text \<open>With room for the whole descent the loader returns, for packages of any size.\<close>

lemma try_load_returns:
  "i \<le> length pkgs \<Longrightarrow> length pkgs - i < d \<Longrightarrow>
   \<exists>b ch. try_load d pkgs i space chosen = (Inr b, ch)"
proof (induction d arbitrary: i space chosen)
  case 0
  then show ?case by simp
next
  case (Suc d)
  show ?case
  proof (cases "i = length pkgs")
    case True
    then show ?thesis unfolding try_load.simps(2)[of d pkgs i space chosen] by simp
  next
    case False
    with Suc.prems have lt: "i < length pkgs" and le: "Suc i \<le> length pkgs"
      and d: "length pkgs - Suc i < d" by simp_all
    have pos: "py_pos pkgs (int i) = Inr i" using lt by (simp add: py_pos_def)
    define x where "x = pkgs ! i"
    have IH: "\<exists>b ch. try_load d pkgs (Suc i) sp c = (Inr b, ch)" for sp c
      using Suc.IH[OF le d] .
    from IH[of space chosen] obtain b2 ch2 where
      r2: "try_load d pkgs (Suc i) space chosen = (Inr b2, ch2)" by blast
    show ?thesis
    proof (cases "size_pkg x \<le> space")
      case gt: False
      with lt pos r2 show ?thesis
        unfolding try_load.simps(2)[of d pkgs i space chosen] by (simp add: x_def[symmetric])
    next
      case le': True
      from IH[of "space - size_pkg x" "chosen @ [x]"] obtain b1 ch1 where
        r1: "try_load d pkgs (Suc i) (space - size_pkg x) (chosen @ [x]) = (Inr b1, ch1)" by blast
      show ?thesis
      proof (cases b1)
        case True
        with lt pos le' r1 show ?thesis
          unfolding try_load.simps(2)[of d pkgs i space chosen] by (auto simp: x_def[symmetric])
      next
        case b1f: False
        from try_load_result[OF r1] b1f have "ch1 = chosen @ [x]" by simp
        with lt pos le' r1 b1f r2 show ?thesis
          unfolding try_load.simps(2)[of d pkgs i space chosen] by (simp add: x_def[symmetric])
      qed
    qed
  qed
qed

text \<open>
  The loader against the enumeration, for any start index and any chosen list, with
  room for the whole descent.
\<close>

lemma try_load_enumeration:
  assumes "\<forall>p\<in>set pkgs. 0 \<le> size_pkg p"
  shows "i \<le> length pkgs \<Longrightarrow> length pkgs - i < d \<Longrightarrow>
         try_load d pkgs i space chosen =
           (case List.find (\<lambda>ys. chosen @ ys \<noteq> [] \<and> total_size ys \<le> space)
                   (include_first_subsets (drop i pkgs)) of
              None \<Rightarrow> (Inr False, chosen)
            | Some ys \<Rightarrow> (Inr True, chosen @ ys))"
proof (induction d arbitrary: i space chosen)
  case 0
  then show ?case by simp
next
  case (Suc d)
  show ?case
  proof (cases "i = length pkgs")
    case True
    then show ?thesis unfolding try_load.simps(2)[of d pkgs i space chosen] by simp
  next
    case False
    with Suc.prems have lt: "i < length pkgs" and le: "Suc i \<le> length pkgs"
      and d: "length pkgs - Suc i < d" by simp_all
    define x where "x = pkgs ! i"
    define S where "S = include_first_subsets (drop (Suc i) pkgs)"
    have dr: "drop i pkgs = x # drop (Suc i) pkgs"
      using lt by (simp add: x_def Cons_nth_drop_Suc)
    have pos: "py_pos pkgs (int i) = Inr i" using lt by (simp add: py_pos_def)
    have IH: "try_load d pkgs (Suc i) sp ch =
             (case List.find (\<lambda>ys. ch @ ys \<noteq> [] \<and> total_size ys \<le> sp) S of
                None \<Rightarrow> (Inr False, ch)
              | Some ys \<Rightarrow> (Inr True, ch @ ys))" for sp ch
      unfolding S_def using Suc.IH[OF le d] .
    have split: "List.find (\<lambda>ys. chosen @ ys \<noteq> [] \<and> total_size ys \<le> space)
                   (include_first_subsets (drop i pkgs)) =
                 (case List.find (\<lambda>ys. (chosen @ [x]) @ ys \<noteq> [] \<and> total_size ys \<le> space - size_pkg x) S of
                    None \<Rightarrow> List.find (\<lambda>ys. chosen @ ys \<noteq> [] \<and> total_size ys \<le> space) S
                  | Some ys \<Rightarrow> Some (x # ys))"
    proof -
      have "(\<lambda>ys. chosen @ x # ys \<noteq> [] \<and> total_size (x # ys) \<le> space) =
            (\<lambda>ys. (chosen @ [x]) @ ys \<noteq> [] \<and> total_size ys \<le> space - size_pkg x)"
        by (auto simp: fun_eq_iff)
      then show ?thesis
        by (simp add: dr S_def find_append find_map split: option.splits)
    qed
    show ?thesis
    proof (cases "size_pkg x \<le> space")
      case True
      show ?thesis
      proof (cases "List.find (\<lambda>ys. (chosen @ [x]) @ ys \<noteq> [] \<and> total_size ys \<le> space - size_pkg x) S")
        case None
        with True lt pos show ?thesis
          unfolding try_load.simps(2)[of d pkgs i space chosen] split
          by (simp add: x_def[symmetric] IH)
      next
        case (Some ys)
        with True lt pos show ?thesis
          unfolding try_load.simps(2)[of d pkgs i space chosen] split
          by (simp add: x_def[symmetric] IH)
      qed
    next
      case False
      have "List.find (\<lambda>ys. (chosen @ [x]) @ ys \<noteq> [] \<and> total_size ys \<le> space - size_pkg x) S = None"
      proof -
        have "0 \<le> total_size ys" if "ys \<in> set S" for ys
          using that assms unfolding S_def
          by (intro subset_total_nonneg[of "drop (Suc i) pkgs"]) (auto dest: in_set_dropD)
        with False show ?thesis by (force simp: find_None_iff)
      qed
      with False lt pos show ?thesis
        unfolding try_load.simps(2)[of d pkgs i space chosen] split
        by (simp add: x_def[symmetric] IH)
    qed
  qed
qed

lemma first_feasible_none:
  "first_feasible_subset budget pkgs = None \<longleftrightarrow>
     (\<forall>ys. subseq ys pkgs \<and> ys \<noteq> [] \<longrightarrow> budget < total_size ys)"
  by (auto simp: first_feasible_subset_def find_None_iff include_first_subsets_subseqs not_le)

lemma subseq_subset: "subseq ys xs \<Longrightarrow> set ys \<subseteq> set xs"
  using list_emb_set[of "(=)" ys xs] by auto

lemma every_item_too_large:
  assumes "\<forall>p\<in>set pkgs. 0 \<le> size_pkg p" and "\<forall>p\<in>set pkgs. budget < size_pkg p"
  shows "first_feasible_subset budget pkgs = None"
  unfolding first_feasible_none
proof (intro allI impI)
  fix ys assume a: "subseq ys pkgs \<and> ys \<noteq> []"
  then obtain y zs where ys: "ys = y # zs" by (cases ys) auto
  from a have sub: "set ys \<subseteq> set pkgs" by (simp add: subseq_subset)
  then have "budget < size_pkg y" using assms(2) ys by auto
  moreover have "0 \<le> total_size zs"
    using sub assms(1) ys by (intro total_size_nonneg) auto
  ultimately show "budget < total_size ys" by (simp add: ys)
qed

lemma apply_chosen_fits:
  "fits chosen (remaining_space (truck_heap s truck)) \<Longrightarrow>
   fst (apply_chosen fs truck chosen s) \<noteq> Inl ValueError"
proof (induction chosen arbitrary: fs s)
  case Nil
  then show ?case by simp
next
  case (Cons p ps)
  let ?t = "truck_heap s truck"
  let ?s2 = "s\<lparr>stack_loading := stack_loading s @ [(truck, p)],
               truck_heap := (truck_heap s)(truck := ?t\<lparr>used_space := used_space ?t + size_pkg p\<rparr>)\<rparr>"
  from Cons.prems have le: "used_space ?t + size_pkg p \<le> capacity ?t"
    and rest: "fits ps (remaining_space ?t - size_pkg p)"
    by (simp_all add: remaining_space_def)
  have step: "apply_chosen fs truck (p # ps) s =
      (case log_action fs (tracking_id p) None ''TRUCK_LOADED'' ?s2 of
         (Inl e, s3) \<Rightarrow> (Inl e, s3)
       | (Inr fs', s3) \<Rightarrow> apply_chosen fs' truck ps s3)"
    using le by (simp add: occupy_space_def)
  show ?case
  proof (cases "\<exists>fs'. fs = True # fs'")
    case True
    then show ?thesis unfolding step by (auto simp: log_action_def)
  next
    case False
    let ?s3 = "?s2\<lparr>db_pending := db_pending ?s2 @ [(tracking_id p, None, ''TRUCK_LOADED'')]\<rparr>"
    from False have "log_action fs (tracking_id p) None ''TRUCK_LOADED'' ?s2 = (Inr (tl fs), ?s3)"
      by (auto simp: log_action_def split: list.splits bool.splits)
    then have "apply_chosen fs truck (p # ps) s = apply_chosen (tl fs) truck ps ?s3"
      unfolding step by simp
    moreover have "fits ps (remaining_space (truck_heap ?s3 truck))"
      using rest by (simp add: remaining_space_def algebra_simps)
    ultimately show ?thesis using Cons.IH[of ?s3 "tl fs"] by simp
  qed
qed

lemma apply_chosen_step:
  assumes "size_pkg p \<le> remaining_space (truck_heap s truck)"
  shows "apply_chosen fs truck (p # ps) s =
      (case log_action fs (tracking_id p) None ''TRUCK_LOADED'' (loaded [p] truck s) of
         (Inl e, s3) \<Rightarrow> (Inl e, s3)
       | (Inr fs', s3) \<Rightarrow> apply_chosen fs' truck ps s3)"
  using assms by (simp add: occupy_space_def remaining_space_def loaded_def)

lemma loaded_Cons:
  "loaded ps truck ((loaded [p] truck s)\<lparr>db_pending := q\<rparr>) = (loaded (p # ps) truck s)\<lparr>db_pending := q\<rparr>"
  by (simp add: loaded_def algebra_simps)

lemma remaining_loaded:
  "remaining_space (truck_heap (loaded [p] truck s) truck) =
   remaining_space (truck_heap s truck) - size_pkg p"
  by (simp add: loaded_def remaining_space_def)

lemma apply_chosen_fault:
  assumes "fits chosen (remaining_space (truck_heap s truck))" and "k < length chosen"
  shows "apply_chosen (replicate k False @ True # fs') truck chosen s =
           (Inl DatabaseError,
            (loaded (take (Suc k) chosen) truck s)
              \<lparr>db_pending := db_pending s @ map loaded_record (take k chosen)\<rparr>)"
  using assms
proof (induction chosen arbitrary: k s)
  case Nil
  then show ?case by simp
next
  case (Cons p ps)
  from Cons.prems(1) have le: "size_pkg p \<le> remaining_space (truck_heap s truck)"
    and rest: "fits ps (remaining_space (truck_heap s truck) - size_pkg p)" by simp_all
  show ?case
  proof (cases k)
    case 0
    then show ?thesis
      unfolding apply_chosen_step[OF le]
      by (simp add: log_action_def loaded_def)
  next
    case (Suc k0)
    let ?s3 = "(loaded [p] truck s)\<lparr>db_pending := db_pending s @ [loaded_record p]\<rparr>"
    have lg: "log_action (replicate k False @ True # fs') (tracking_id p) None ''TRUCK_LOADED''
                (loaded [p] truck s) = (Inr (replicate k0 False @ True # fs'), ?s3)"
      using Suc by (simp add: log_action_def loaded_record_def loaded_def)
    have f3: "fits ps (remaining_space (truck_heap ?s3 truck))"
      using rest by (simp add: remaining_loaded)
    have k0: "k0 < length ps" using Cons.prems(2) Suc by simp
    show ?thesis
      unfolding apply_chosen_step[OF le] lg
      using Cons.IH[OF f3 k0] Suc
      by (simp add: loaded_Cons)
  qed
qed

lemma apply_chosen_ok:
  assumes "fits chosen (remaining_space (truck_heap s truck))"
  shows "apply_chosen (replicate (length chosen) False @ fs') truck chosen s =
           (Inr fs', (loaded chosen truck s)\<lparr>db_pending := db_pending s @ map loaded_record chosen\<rparr>)"
  using assms
proof (induction chosen arbitrary: s)
  case Nil
  then show ?case by (simp add: loaded_def)
next
  case (Cons p ps)
  from Cons.prems(1) have le: "size_pkg p \<le> remaining_space (truck_heap s truck)"
    and rest: "fits ps (remaining_space (truck_heap s truck) - size_pkg p)" by simp_all
  let ?s3 = "(loaded [p] truck s)\<lparr>db_pending := db_pending s @ [loaded_record p]\<rparr>"
  have lg: "log_action (replicate (length (p # ps)) False @ fs') (tracking_id p) None ''TRUCK_LOADED''
              (loaded [p] truck s) = (Inr (replicate (length ps) False @ fs'), ?s3)"
    by (simp add: log_action_def loaded_record_def loaded_def)
  have f3: "fits ps (remaining_space (truck_heap ?s3 truck))"
    using rest by (simp add: remaining_loaded)
  show ?case
    unfolding apply_chosen_step[OF le] lg
    using Cons.IH[OF f3]
    by (simp add: loaded_Cons)
qed

lemma load_fragile_fault:
  assumes "try_load frames pkgs 0 (remaining_space (truck_heap s truck)) [] = (Inr True, chosen)"
    and "k \<le> length chosen"
  shows "load_fragile frames (replicate k False @ True # fs') truck pkgs s =
           (Inr chosen, (loaded (take (Suc k) chosen) truck s)\<lparr>db_pending := []\<rparr>)"
proof -
  from try_load_success[OF assms(1)] have f: "fits chosen (remaining_space (truck_heap s truck))"
    by simp
  show ?thesis
  proof (cases "k < length chosen")
    case True
    show ?thesis
      unfolding load_fragile_def assms(1) using apply_chosen_fault[OF f True, of fs']
      by (simp add: db_rollback_def)
  next
    case False
    with assms(2) have k: "k = length chosen" by simp
    show ?thesis
      unfolding load_fragile_def assms(1) k using apply_chosen_ok[OF f, of "True # fs'"]
      by (simp add: db_rollback_def db_commit_def)
  qed
qed

text \<open>The capacity error never leaves \<open>load_fragile\<close>.\<close>

lemma load_fragile_no_ValueError:
  "fst (load_fragile frames fs truck pkgs s) \<noteq> Inl ValueError"
proof (cases "try_load frames pkgs 0 (remaining_space (truck_heap s truck)) []")
  case (Pair r ch)
  show ?thesis
  proof (cases r)
    case (Inl e)
    with Pair try_load_exceptions[of frames pkgs 0 _ "[]" e ch] show ?thesis
      by (auto simp: load_fragile_def)
  next
    case (Inr b)
    with Pair show ?thesis
      by (cases b) (auto simp: load_fragile_def split: prod.splits sum.splits)
  qed
qed

lemma load_fragile_overflow:
  assumes "frames \<le> length pkgs"
  shows "fst (load_fragile frames fs truck pkgs s) = Inl RecursionError"
proof -
  from try_load_overflow[of 0 pkgs frames "remaining_space (truck_heap s truck)" "[]"] assms
  obtain ch where "try_load frames pkgs 0 (remaining_space (truck_heap s truck)) [] = (Inl RecursionError, ch)"
    by (cases "try_load frames pkgs 0 (remaining_space (truck_heap s truck)) []") auto
  then show ?thesis by (simp add: load_fragile_def)
qed

section \<open>The ledger: lemmas\<close>

lemma log_action_no_fault:
  "True \<notin> set fs \<Longrightarrow>
   log_action fs tid bid status s = (Inr (tl fs), s\<lparr>db_pending := db_pending s @ [(tid, bid, status)]\<rparr>)"
  by (cases fs) (auto simp: log_action_def split: bool.splits)

lemma db_commit_no_fault:
  "True \<notin> set fs \<Longrightarrow>
   db_commit fs s = (Inr (tl fs), s\<lparr>shipment_logs := shipment_logs s @ db_pending s, db_pending := []\<rparr>)"
  by (cases fs) (auto simp: db_commit_def split: bool.splits)

lemma no_fault_tl: "True \<notin> set fs \<Longrightarrow> True \<notin> set (tl fs)"
  by (cases fs) auto

lemma rollback_loop_no_fault:
  assumes "True \<notin> set fs"
    and "k = (case count of None \<Rightarrow> length (stack_loading s)
              | Some c \<Rightarrow> min (nat (c - removed)) (length (stack_loading s)))"
  shows "\<exists>fs'. True \<notin> set fs' \<and> rollback_loop count removed fs s =
           (Inr fs',
            s\<lparr>stack_loading := take (length (stack_loading s) - k) (stack_loading s),
              truck_heap := fold release_entry (take k (rev (stack_loading s))) (truck_heap s),
              db_pending := db_pending s @ map rollback_record (take k (rev (stack_loading s)))\<rparr>)"
  using assms
proof (induction "length (stack_loading s)" arbitrary: s fs removed k)
  case 0
  then show ?case
    unfolding rollback_loop.simps[of count removed fs s] by (simp split: option.splits)
next
  case (Suc n)
  let ?st = "stack_loading s"
  have ne: "?st \<noteq> []" using Suc.hyps(2) by auto
  show ?case
  proof (cases "case count of None \<Rightarrow> True | Some c \<Rightarrow> removed < c")
    case False
    then have "k = 0" using Suc.prems(2) by (auto split: option.splits)
    with False show ?thesis
      unfolding rollback_loop.simps[of count removed fs s] using Suc.prems(1) by simp
  next
    case True
    obtain truck pkg where e: "last ?st = (truck, pkg)" by (cases "last ?st")
    define s2 where "s2 = s\<lparr>stack_loading := butlast ?st,
        truck_heap := (truck_heap s)(truck := free_space (truck_heap s truck) (size_pkg pkg))\<rparr>"
    define s3 where "s3 = s2\<lparr>db_pending := db_pending s2 @ [(tracking_id pkg, None, ''ROLLBACK'')]\<rparr>"
    define k' where "k' = (case count of None \<Rightarrow> length (stack_loading s3)
              | Some c \<Rightarrow> min (nat (c - (removed + 1))) (length (stack_loading s3)))"
    have len3: "length (stack_loading s3) = n" using Suc.hyps(2) by (simp add: s3_def s2_def)
    have kk: "k = Suc k'"
      using True Suc.prems(2) Suc.hyps(2) len3 unfolding k'_def
      by (auto split: option.splits simp: min_def nat_diff_distrib)
    have step: "rollback_loop count removed fs s = rollback_loop count (removed + 1) (tl fs) s3"
      unfolding rollback_loop.simps[of count removed fs s]
      using True ne e log_action_no_fault[OF Suc.prems(1)]
      by (simp add: s3_def s2_def)
    from Suc.hyps(1)[OF len3[symmetric] no_fault_tl[OF Suc.prems(1)] k'_def]
    obtain fs' where fs': "True \<notin> set fs'" and
      r: "rollback_loop count (removed + 1) (tl fs) s3 =
           (Inr fs',
            s3\<lparr>stack_loading := take (length (stack_loading s3) - k') (stack_loading s3),
              truck_heap := fold release_entry (take k' (rev (stack_loading s3))) (truck_heap s3),
              db_pending := db_pending s3 @ map rollback_record (take k' (rev (stack_loading s3)))\<rparr>)"
      by blast
    have rv: "rev ?st = (truck, pkg) # rev (butlast ?st)"
      using ne e by (metis append_butlast_last_id rev.simps(2) rev_rev_ident rev_swap singleton_rev_conv append_Cons append_Nil)
    have k'le: "k' \<le> n" using len3 unfolding k'_def by (auto split: option.splits)
    have tk: "take (length ?st - k) ?st = take (n - k') (butlast ?st)"
      using Suc.hyps(2)[symmetric] kk k'le by (simp add: take_butlast)
    have st3: "stack_loading s3 = butlast ?st" "truck_heap s3 = release_entry (truck, pkg) (truck_heap s)"
      "db_pending s3 = db_pending s @ [rollback_record (truck, pkg)]"
      by (simp_all add: s3_def s2_def release_entry_def rollback_record_def)
    have tk2: "take (length ?st - Suc k') (butlast ?st) = take (length ?st - Suc k') ?st"
      using Suc.hyps(2)[symmetric] by (simp add: take_butlast)
    show ?thesis
      unfolding step r
      using fs' by (simp add: kk rv tk st3 len3) (simp add: s3_def s2_def tk2)
  qed
qed


lemma rollback_no_fault:
  assumes "True \<notin> set fs"
  shows "rollback fs count s =
           undone (case count of None \<Rightarrow> length (stack_loading s)
                   | Some c \<Rightarrow> min (nat c) (length (stack_loading s))) s"
proof -
  define k where "k = (case count of None \<Rightarrow> length (stack_loading s)
              | Some c \<Rightarrow> min (nat (c - 0)) (length (stack_loading s)))"
  from rollback_loop_no_fault[OF assms k_def] obtain fs' where
    fs': "True \<notin> set fs'" and
    r: "rollback_loop count 0 fs s =
           (Inr fs',
            s\<lparr>stack_loading := take (length (stack_loading s) - k) (stack_loading s),
              truck_heap := fold release_entry (take k (rev (stack_loading s))) (truck_heap s),
              db_pending := db_pending s @ map rollback_record (take k (rev (stack_loading s)))\<rparr>)"
    by blast
  have "rollback fs count s = undone k s"
    unfolding rollback_def r by (simp add: db_commit_no_fault[OF fs'] undone_def)
  then show ?thesis by (simp add: k_def split: option.splits)
qed

text \<open>
  No operation of the controller leaves an audit batch open: each one ends with a commit
  or a rollback of the connection, or has not touched the store.
\<close>

lemma no_open_batch:
  assumes "db_pending s = []"
  shows "db_pending (add_package p s) = []"
    and "db_pending (process_package fs s) = []"
    and "db_pending (snd (load_fragile frames fs truck pkgs s)) = []"
    and "db_pending (rollback fs count s) = []"
proof -
  show "db_pending (add_package p s) = []" using assms by (simp add: add_package_def)
  show "db_pending (process_package fs s) = []"
    using assms
    by (auto simp: process_package_def db_rollback_def try_place_def db_commit_def
        split: list.splits prod.splits sum.splits bool.splits if_splits)
  show "db_pending (snd (load_fragile frames fs truck pkgs s)) = []"
    using assms
    by (auto simp: load_fragile_def db_rollback_def db_commit_def
        split: list.splits prod.splits sum.splits bool.splits)
  show "db_pending (rollback fs count s) = []"
    by (auto simp: rollback_def db_rollback_def db_commit_def
        split: list.splits prod.splits sum.splits bool.splits)
qed

lemma rollback_empty:
  assumes "stack_loading s = []" and "db_pending s = []"
  shows "rollback fs count s = s"
proof -
  have l: "rollback_loop count 0 fs s = (Inr fs, s)"
    unfolding rollback_loop.simps[of count 0 fs s] using assms(1) by simp
  have "s\<lparr>db_pending := []\<rparr> = s" "s\<lparr>shipment_logs := shipment_logs s, db_pending := []\<rparr> = s"
    using assms(2) by (cases s, simp)+
  then show ?thesis
    unfolding rollback_def l
    by (auto simp: db_commit_def db_rollback_def assms(2) split: list.splits bool.splits)
qed

section \<open>The demo run\<close>

lemma main_after_ingest_queue: "queue_incoming main_after_ingest = [p1, p2, p3, p4, p5]"
  by code_simp

lemma main_after_ingest_bins: "bin_inventory main_after_ingest = demo_bins"
  by code_simp

lemma main_after_two_queue: "queue_incoming main_after_two = [p3, p4, p5]"
  by code_simp

lemma main_after_two_bins:
  "bin_inventory main_after_two =
     [\<lparr>capacity = 10, used_space = 5, bin_id = 1, location_code = ''A1''\<rparr>,
      \<lparr>capacity = 20, used_space = 12, bin_id = 2, location_code = ''A2''\<rparr>,
      \<lparr>capacity = 50, used_space = 0, bin_id = 3, location_code = ''B1''\<rparr>,
      \<lparr>capacity = 100, used_space = 0, bin_id = 4, location_code = ''B2''\<rparr>]"
  by code_simp

lemma main_after_two_logs:
  "shipment_logs main_after_two =
     [(''P001'', Some 1, ''BIN_ASSIGNED''), (''P002'', Some 2, ''BIN_ASSIGNED'')]"
  by code_simp

lemma main_after_two_best_fit: "find_best_fit_bin (bin_inventory main_after_two) 8 = Inr 0"
  by code_simp

lemma main_after_placement_logs:
  "shipment_logs main_after_placement =
     [(''P001'', Some 1, ''BIN_ASSIGNED''), (''P002'', Some 2, ''BIN_ASSIGNED''),
      (''P004'', Some 3, ''BIN_ASSIGNED'')]"
  by code_simp

lemma main_after_placement_bins:
  "bin_inventory main_after_placement =
     [\<lparr>capacity = 10, used_space = 5, bin_id = 1, location_code = ''A1''\<rparr>,
      \<lparr>capacity = 20, used_space = 12, bin_id = 2, location_code = ''A2''\<rparr>,
      \<lparr>capacity = 50, used_space = 25, bin_id = 3, location_code = ''B1''\<rparr>,
      \<lparr>capacity = 100, used_space = 0, bin_id = 4, location_code = ''B2''\<rparr>]"
  by code_simp

lemma main_after_placement_rest:
  "queue_incoming main_after_placement = []" "db_pending main_after_placement = []"
  "stack_loading main_after_placement = []" "truck_heap main_after_placement 0 = fresh_truck"
  by code_simp+

lemma demo_best_fits:
  "map (find_best_fit_bin demo_bins) [5, 12, 8, 25, 9] = [Inr 0, Inr 1, Inr 0, Inr 2, Inr 0]"
  by code_simp

lemma demo_capacities: "map capacity demo_bins = [10, 20, 50, 100]"
  by code_simp

lemma first_step_logs:
  "shipment_logs (process_package [] main_after_ingest) = [(''P001'', Some 1, ''BIN_ASSIGNED'')]"
  by code_simp

text \<open>
  Claim C1, as stated: the packages of sizes 5, 12, 8, 25 and 9, processed in FIFO order
  against the bootstrap bins of capacities 10, 20, 50 and 100, are assigned to the bins of
  capacity 20, 20, 50, 50 and 20. It fails at the first package: the best fit for size 5
  is index 0, the bin of capacity 10 with id 1, and that is the bin the audit log names
  for P001. The audit log of the whole run is not the claimed one, which would put
  5 + 12 + 9 = 26 units into the bin of capacity 20.
\<close>

theorem demo_placement_counterexample:
  "find_best_fit_bin demo_bins (size_pkg p1) = Inr 0 \<and> capacity (demo_bins ! 0) = 10 \<and>
   shipment_logs (process_package [] main_after_ingest) = [(''P001'', Some 1, ''BIN_ASSIGNED'')] \<and>
   shipment_logs main_after_placement \<noteq>
     [(''P001'', Some 2, ''BIN_ASSIGNED''), (''P002'', Some 2, ''BIN_ASSIGNED''),
      (''P003'', Some 3, ''BIN_ASSIGNED''), (''P004'', Some 3, ''BIN_ASSIGNED''),
      (''P005'', Some 2, ''BIN_ASSIGNED'')]"
proof -
  have "find_best_fit_bin demo_bins (size_pkg p1) = Inr 0" by code_simp
  moreover have "capacity (demo_bins ! 0) = 10" by code_simp
  ultimately show ?thesis
    by (simp add: first_step_logs main_after_placement_logs)
qed

text \<open>
  Claim C1, amended: processed in FIFO order against the bootstrap bins of capacities 10,
  20, 50 and 100, all empty, the best fit on nominal capacity sends the sizes 5, 12, 8, 25
  and 9 to the indices 0, 1, 0, 2 and 0, the bins of capacity 10, 20, 10, 50 and 10. The
  packages of sizes 5, 12 and 25 are placed and recorded as \<open>BIN_ASSIGNED\<close> to the bins
  1, 2 and 3. The packages of sizes 8 and 9 are sent to the bin of capacity 10, which
  holds 5 by then; they fail at \<open>occupy_space\<close>, change no bin and leave no record.
\<close>

theorem demo_placement:
  "map size_pkg [p1, p2, p3, p4, p5] = [5, 12, 8, 25, 9] \<and>
   queue_incoming main_after_ingest = [p1, p2, p3, p4, p5] \<and>
   bin_inventory main_after_ingest = demo_bins \<and>
   map capacity demo_bins = [10, 20, 50, 100] \<and>
   map (find_best_fit_bin demo_bins) [5, 12, 8, 25, 9] = [Inr 0, Inr 1, Inr 0, Inr 2, Inr 0] \<and>
   shipment_logs main_after_placement =
     [(''P001'', Some 1, ''BIN_ASSIGNED''), (''P002'', Some 2, ''BIN_ASSIGNED''),
      (''P004'', Some 3, ''BIN_ASSIGNED'')] \<and>
   bin_inventory main_after_placement =
     [\<lparr>capacity = 10, used_space = 5, bin_id = 1, location_code = ''A1''\<rparr>,
      \<lparr>capacity = 20, used_space = 12, bin_id = 2, location_code = ''A2''\<rparr>,
      \<lparr>capacity = 50, used_space = 25, bin_id = 3, location_code = ''B1''\<rparr>,
      \<lparr>capacity = 100, used_space = 0, bin_id = 4, location_code = ''B2''\<rparr>] \<and>
   queue_incoming main_after_placement = []"
proof -
  have "map size_pkg [p1, p2, p3, p4, p5] = [5, 12, 8, 25, 9]"
    by (simp add: p1_def p2_def p3_def p4_def p5_def)
  then show ?thesis
    using main_after_ingest_queue main_after_ingest_bins demo_capacities demo_best_fits
      main_after_placement_logs main_after_placement_bins main_after_placement_rest(1)
    by simp
qed


section \<open>Capacity errors\<close>

lemma oversize_queued_facts:
  "queue_incoming oversize_queued = [p6]"
  "find_best_fit_bin (bin_inventory oversize_queued) (size_pkg p6) = Inr (- 1)"
  "shipment_logs oversize_queued = []" "db_pending oversize_queued = []"
  by code_simp+

text \<open>
  Claim C3, as stated: a capacity error raised by \<open>occupy_space\<close> during a placement is
  recovered as the "no fit" outcome, the same recorded outcome as when no bin qualifies.
  It fails after two placements of the demo: P003 of size 8 is sent to the bin of
  capacity 10 that holds 5, \<open>occupy_space\<close> raises, and the audit log is left as it was,
  without a \<open>NO_BIN\<close> record; whereas a package that no bin qualifies for is recorded as
  \<open>NO_BIN\<close>.
\<close>

theorem capacity_error_counterexample:
  "queue_incoming main_after_two = p3 # [p4, p5] \<and>
   find_best_fit_bin (bin_inventory main_after_two) (size_pkg p3) = Inr 0 \<and>
   fst (occupy_space (bin_inventory main_after_two ! 0) (size_pkg p3)) = Inl ValueError \<and>
   shipment_logs (process_package [] main_after_two) = shipment_logs main_after_two \<and>
   (''P003'', None, ''NO_BIN'') \<notin> set (shipment_logs (process_package [] main_after_two)) \<and>
   shipment_logs (process_package [] oversize_queued) = [(''P006'', None, ''NO_BIN'')]"
proof -
  have "find_best_fit_bin (bin_inventory main_after_two) (size_pkg p3) = Inr 0" by code_simp
  moreover have "fst (occupy_space (bin_inventory main_after_two ! 0) (size_pkg p3)) = Inl ValueError"
    by code_simp
  moreover have "shipment_logs (process_package [] main_after_two) =
      [(''P001'', Some 1, ''BIN_ASSIGNED''), (''P002'', Some 2, ''BIN_ASSIGNED'')]"
    by code_simp
  moreover have "shipment_logs (process_package [] oversize_queued) = [(''P006'', None, ''NO_BIN'')]"
    by code_simp
  ultimately show ?thesis
    by (simp add: main_after_two_queue main_after_two_logs)
qed

text \<open>
  Claim C3, amended: when \<open>occupy_space\<close> raises its capacity error during
  \<open>process_package\<close>, the exception does not propagate past the controller: it is caught,
  the call returns, the package has left the queue, the bins are unchanged, and the open
  audit batch is rolled back, so that no record is written for the package. That is not
  the outcome when no bin qualifies, which commits a \<open>NO_BIN\<close> record. The capacity
  error does not propagate past \<open>load_fragile\<close> either, and \<open>occupy_space\<close> does not
  raise it there for the list that \<open>try_load\<close> has chosen.
\<close>

theorem capacity_error_is_caught:
  "(queue_incoming s = pkg # rest \<and>
    find_best_fit_bin (bin_inventory s) (size_pkg pkg) = Inr idx \<and> idx \<noteq> - 1 \<and>
    capacity (bin_inventory s ! nat idx) < used_space (bin_inventory s ! nat idx) + size_pkg pkg \<longrightarrow>
      process_package fs s = s\<lparr>queue_incoming := rest, db_pending := []\<rparr>) \<and>
   (queue_incoming s = pkg # rest \<and>
    find_best_fit_bin (bin_inventory s) (size_pkg pkg) = Inr (- 1) \<longrightarrow>
      process_package [] s =
        s\<lparr>queue_incoming := rest,
          shipment_logs := shipment_logs s @ db_pending s @ [(tracking_id pkg, None, ''NO_BIN'')],
          db_pending := []\<rparr>) \<and>
   fst (load_fragile frames fs truck pkgs s) \<noteq> Inl ValueError \<and>
   (try_load frames pkgs 0 (remaining_space (truck_heap s truck)) [] = (Inr True, chosen) \<longrightarrow>
      fst (apply_chosen fs truck chosen s) \<noteq> Inl ValueError)"
proof -
  have "fst (apply_chosen fs truck chosen s) \<noteq> Inl ValueError"
    if "try_load frames pkgs 0 (remaining_space (truck_heap s truck)) [] = (Inr True, chosen)"
    using try_load_success[OF that] apply_chosen_fits[of chosen s truck fs] by simp
  then show ?thesis
    using process_package_reserve_fails[of s pkg rest idx fs] process_package_no_bin[of s pkg rest]
      load_fragile_no_ValueError[of frames fs truck pkgs s]
    by blast
qed

text \<open>
  The hypotheses hold in the demo: after two placements for P003, on a fresh controller
  for the oversized P006, and for the three fragile packages on the empty truck.
\<close>

theorem capacity_error_is_caught_witness:
  "queue_incoming main_after_two = p3 # [p4, p5] \<and>
   find_best_fit_bin (bin_inventory main_after_two) (size_pkg p3) = Inr 0 \<and>
   capacity (bin_inventory main_after_two ! 0) <
     used_space (bin_inventory main_after_two ! 0) + size_pkg p3 \<and>
   process_package [] main_after_two = main_after_two\<lparr>queue_incoming := [p4, p5], db_pending := []\<rparr> \<and>
   queue_incoming oversize_queued = [p6] \<and>
   find_best_fit_bin (bin_inventory oversize_queued) (size_pkg p6) = Inr (- 1) \<and>
   process_package [] oversize_queued =
     oversize_queued\<lparr>queue_incoming := [], shipment_logs := [(''P006'', None, ''NO_BIN'')],
       db_pending := []\<rparr> \<and>
   fst (load_fragile 1000 [] 0 [p1, p3, p5] main_after_placement) \<noteq> Inl ValueError \<and>
   try_load 1000 [p1, p3, p5] 0 (remaining_space (truck_heap main_after_placement 0)) [] =
     (Inr True, [p1, p3, p5]) \<and>
   fst (apply_chosen [] 0 [p1, p3, p5] main_after_placement) \<noteq> Inl ValueError"
proof -
  have q: "queue_incoming main_after_two = p3 # [p4, p5]" by (simp add: main_after_two_queue)
  have f: "find_best_fit_bin (bin_inventory main_after_two) (size_pkg p3) = Inr 0" by code_simp
  have c: "capacity (bin_inventory main_after_two ! 0) <
     used_space (bin_inventory main_after_two ! 0) + size_pkg p3"
    by (simp add: main_after_two_bins p3_def)
  have a: "process_package [] main_after_two =
      main_after_two\<lparr>queue_incoming := [p4, p5], db_pending := []\<rparr>"
    using capacity_error_is_caught[where s = main_after_two and pkg = p3 and rest = "[p4, p5]"
        and idx = 0 and fs = "[]"] q f c
    by simp
  have b: "process_package [] oversize_queued =
     oversize_queued\<lparr>queue_incoming := [], shipment_logs := [(''P006'', None, ''NO_BIN'')],
       db_pending := []\<rparr>"
    using capacity_error_is_caught[where s = oversize_queued and pkg = p6 and rest = "[]"]
      oversize_queued_facts
    by (simp add: p6_def)
  have t: "try_load 1000 [p1, p3, p5] 0 (remaining_space (truck_heap main_after_placement 0)) [] =
     (Inr True, [p1, p3, p5])"
    unfolding main_after_placement_rest(4) by code_simp
  from capacity_error_is_caught[where s = main_after_placement and truck = 0 and frames = 1000
        and pkgs = "[p1, p3, p5]" and chosen = "[p1, p3, p5]" and fs = "[]"] t
  have d: "fst (load_fragile 1000 [] 0 [p1, p3, p5] main_after_placement) \<noteq> Inl ValueError"
    "fst (apply_chosen [] 0 [p1, p3, p5] main_after_placement) \<noteq> Inl ValueError"
    by blast+
  from q f c a b t d oversize_queued_facts(1,2) show ?thesis by simp
qed

section \<open>The loader\<close>

text \<open>
  Claim C5, as stated: for every ordered sequence of candidates of positive size and every
  budget, the loader returns the first feasible subset or reports that there is none. It
  fails on a long sequence: \<open>try_load\<close> calls itself once for each candidate, and for a
  thousand candidates of size 5 a call stack with room for a thousand calls, the whole
  default recursion limit, is exhausted; \<open>try_load\<close> raises \<open>RecursionError\<close>, and so
  does \<open>load_fragile\<close>, which calls it outside its \<open>try\<close> block.
\<close>

theorem loader_first_feasible_counterexample:
  "set thousand_candidates = {p1} \<and> size_pkg p1 = 5 \<and> length thousand_candidates = 1000 \<and>
   fst (try_load 1000 thousand_candidates 0 13 []) = Inl RecursionError \<and>
   fst (load_fragile 1000 [] 0 thousand_candidates main_after_placement) = Inl RecursionError"
proof -
  have l: "length thousand_candidates = 1000" by (simp add: thousand_candidates_def)
  have "fst (try_load 1000 thousand_candidates 0 13 []) = Inl RecursionError"
    by (rule try_load_overflow) (simp_all add: l)
  moreover have "fst (load_fragile 1000 [] 0 thousand_candidates main_after_placement) =
      Inl RecursionError"
    by (rule load_fragile_overflow) (simp add: l)
  ultimately show ?thesis using l by (simp add: thousand_candidates_def p1_def)
qed

text \<open>
  Claim C5, amended: for candidates of non-negative size (positive sizes in particular)
  that are fewer than the calls the stack has room for, and every budget, \<open>try_load\<close>
  from index 0 with an empty chosen list raises nothing and returns the first subset, in
  the include-first order, that is not empty and whose total size is within the budget;
  it returns \<open>False\<close> and leaves the chosen list empty when there is none, that is when
  every non-empty subsequence of the candidates exceeds the budget, as is the case when
  every single item does. \<open>load_fragile\<close> returns that subset, or the empty list. When
  the stack has room for no more calls than there are candidates, \<open>try_load\<close> and
  \<open>load_fragile\<close> raise \<open>RecursionError\<close>.
\<close>

theorem loader_first_feasible:
  assumes "\<forall>p\<in>set pkgs. 0 \<le> size_pkg p" and "length pkgs < frames"
  shows "try_load frames pkgs 0 budget [] =
           (case first_feasible_subset budget pkgs of
              None \<Rightarrow> (Inr False, [])
            | Some ys \<Rightarrow> (Inr True, ys)) \<and>
         (first_feasible_subset budget pkgs = None \<longleftrightarrow>
            (\<forall>ys. subseq ys pkgs \<and> ys \<noteq> [] \<longrightarrow> budget < total_size ys)) \<and>
         ((\<forall>p\<in>set pkgs. budget < size_pkg p) \<longrightarrow>
            try_load frames pkgs 0 budget [] = (Inr False, [])) \<and>
         (budget = remaining_space (truck_heap s truck) \<longrightarrow>
            fst (load_fragile frames fs truck pkgs s) =
              Inr (case first_feasible_subset budget pkgs of None \<Rightarrow> [] | Some ys \<Rightarrow> ys)) \<and>
         (n \<le> length pkgs \<longrightarrow>
            fst (try_load n pkgs 0 budget []) = Inl RecursionError \<and>
            fst (load_fragile n fs truck pkgs s) = Inl RecursionError)"
proof -
  have eq: "try_load frames pkgs 0 budget [] =
           (case first_feasible_subset budget pkgs of
              None \<Rightarrow> (Inr False, [])
            | Some ys \<Rightarrow> (Inr True, ys))"
    using try_load_enumeration[OF assms(1), of 0 frames budget "[]"] assms(2)
    by (simp add: first_feasible_subset_def split: option.splits)
  have "try_load frames pkgs 0 budget [] = (Inr False, [])"
    if "\<forall>p\<in>set pkgs. budget < size_pkg p"
    using eq every_item_too_large[OF assms(1) that] by simp
  moreover have "fst (load_fragile frames fs truck pkgs s) =
              Inr (case first_feasible_subset budget pkgs of None \<Rightarrow> [] | Some ys \<Rightarrow> ys)"
    if "budget = remaining_space (truck_heap s truck)"
    using eq unfolding that
    by (cases "first_feasible_subset (remaining_space (truck_heap s truck)) pkgs")
       (simp_all add: load_fragile_def split: prod.splits sum.splits)
  moreover have "fst (try_load n pkgs 0 budget []) = Inl RecursionError \<and>
            fst (load_fragile n fs truck pkgs s) = Inl RecursionError"
    if "n \<le> length pkgs"
    using try_load_overflow[of 0 pkgs n budget "[]"] load_fragile_overflow[OF that] that by simp
  ultimately show ?thesis using eq first_feasible_none by blast
qed

text \<open>
  Sizes 5, 8, 9 on a stack with room for a thousand calls: budget 13 yields the packages
  of sizes 5 and 8, budget 4 is infeasible, and the empty truck of capacity 40 takes all
  three; with room for three calls only, the loader raises \<open>RecursionError\<close>.
\<close>

theorem loader_first_feasible_witness:
  "0 \<le> size_pkg p1 \<and> 0 \<le> size_pkg p3 \<and> 0 \<le> size_pkg p5 \<and>
   length [p1, p3, p5] < (1000 :: nat) \<and>
   map size_pkg [p1, p3, p5] = [5, 8, 9] \<and>
   first_feasible_subset 13 [p1, p3, p5] = Some [p1, p3] \<and>
   try_load 1000 [p1, p3, p5] 0 13 [] = (Inr True, [p1, p3]) \<and>
   4 < size_pkg p1 \<and> 4 < size_pkg p3 \<and> 4 < size_pkg p5 \<and>
   try_load 1000 [p1, p3, p5] 0 4 [] = (Inr False, []) \<and>
   remaining_space (truck_heap main_after_placement 0) = 40 \<and>
   fst (load_fragile 1000 [] 0 [p1, p3, p5] main_after_placement) = Inr [p1, p3, p5] \<and>
   (3 :: nat) \<le> length [p1, p3, p5] \<and>
   fst (try_load 3 [p1, p3, p5] 0 13 []) = Inl RecursionError \<and>
   fst (load_fragile 3 [] 0 [p1, p3, p5] main_after_placement) = Inl RecursionError"
proof -
  have h: "\<forall>p\<in>set [p1, p3, p5]. 0 \<le> size_pkg p" by (simp add: p1_def p3_def p5_def)
  have l: "length [p1, p3, p5] < (1000 :: nat)" by simp
  have f: "first_feasible_subset 13 [p1, p3, p5] = Some [p1, p3]"
    by (simp add: first_feasible_subset_def p1_def p3_def p5_def)
  have g: "\<forall>p\<in>set [p1, p3, p5]. 4 < size_pkg p" by (simp add: p1_def p3_def p5_def)
  from loader_first_feasible[OF h l, of 13] f
  have a: "try_load 1000 [p1, p3, p5] 0 13 [] = (Inr True, [p1, p3])" by simp
  from loader_first_feasible[OF h l, of 4] g
  have b: "try_load 1000 [p1, p3, p5] 0 4 [] = (Inr False, [])" by blast
  have r: "remaining_space (truck_heap main_after_placement 0) = 40"
    by (simp add: main_after_placement_rest remaining_space_def fresh_truck_def new_Truck_def)
  have f40: "first_feasible_subset 40 [p1, p3, p5] = Some [p1, p3, p5]"
    by (simp add: first_feasible_subset_def p1_def p3_def p5_def)
  from loader_first_feasible[OF h l, of 40 main_after_placement 0 "[]"] r f40
  have c: "fst (load_fragile 1000 [] 0 [p1, p3, p5] main_after_placement) = Inr [p1, p3, p5]"
    by simp
  have t: "(3 :: nat) \<le> length [p1, p3, p5]" by simp
  from loader_first_feasible[OF h l, where n = 3 and budget = 13 and s = main_after_placement
      and truck = 0 and fs = "[]"] t
  have d: "fst (try_load 3 [p1, p3, p5] 0 13 []) = Inl RecursionError"
    "fst (load_fragile 3 [] 0 [p1, p3, p5] main_after_placement) = Inl RecursionError"
    by blast+
  from h f a g b r c d show ?thesis by (simp add: p1_def p3_def p5_def)
qed

text \<open>
  Claim C10: whenever \<open>try_load\<close> returns \<open>True\<close>, the packages it has added to the
  chosen list have a total size of at most the space it was given; and when it was called
  as \<open>load_fragile\<close> calls it, with an empty list and the remaining space of the truck,
  applying the chosen list to the truck does not raise the capacity error, whatever the
  audit store does.
\<close>

theorem loader_selection_fits:
  assumes "try_load frames pkgs i space chosen0 = (Inr True, ch)"
  shows "\<exists>added. ch = chosen0 @ added \<and> total_size added \<le> space \<and>
           (chosen0 = [] \<and> space = remaining_space (truck_heap s truck) \<longrightarrow>
              fst (apply_chosen fs truck ch s) \<noteq> Inl ValueError)"
proof -
  from try_load_success[OF assms] obtain added where
    a: "ch = chosen0 @ added" "fits added space" by blast
  have "fst (apply_chosen fs truck ch s) \<noteq> Inl ValueError"
    if "chosen0 = []" "space = remaining_space (truck_heap s truck)"
    using apply_chosen_fits[of ch s truck fs] a that by simp
  with a fits_total[OF a(2)] show ?thesis by blast
qed

text \<open>The three fragile packages of the demo on the empty truck.\<close>

theorem loader_selection_fits_witness:
  "try_load 1000 [p1, p3, p5] 0 40 [] = (Inr True, [p1, p3, p5]) \<and>
   total_size [p1, p3, p5] \<le> 40 \<and>
   remaining_space (truck_heap main_after_placement 0) = 40 \<and>
   fst (apply_chosen [] 0 [p1, p3, p5] main_after_placement) \<noteq> Inl ValueError"
proof -
  have t: "try_load 1000 [p1, p3, p5] 0 40 [] = (Inr True, [p1, p3, p5])" by code_simp
  have r: "40 = remaining_space (truck_heap main_after_placement 0)"
    by (simp add: main_after_placement_rest remaining_space_def fresh_truck_def new_Truck_def)
  from loader_selection_fits[OF t, of main_after_placement 0 "[]"] r
  have "total_size [p1, p3, p5] \<le> 40 \<and>
        fst (apply_chosen [] 0 [p1, p3, p5] main_after_placement) \<noteq> Inl ValueError"
    by auto
  with t r show ?thesis by simp
qed

section \<open>Aborted batches\<close>

text \<open>
  Claim C4: there are runs in which a fault of the audit store aborts the batch of an
  operation and the container state stays as the operation left it. In
  \<open>process_package\<close>, when the package fits its bin and the \<open>INSERT\<close> or the \<open>commit\<close>
  raises, the bin keeps the added used space while the audit batch is discarded. In
  \<open>load_fragile\<close>, when the first fault of the store is at its call number \<open>k\<close> (an
  \<open>INSERT\<close>, or the \<open>commit\<close> when \<open>k\<close> is the number of chosen packages), the first
  \<open>k + 1\<close> chosen packages stay on the ledger and in the used space of the truck, and
  the audit batch is discarded.
\<close>

theorem abort_keeps_container_state:
  "(queue_incoming s = pkg # rest \<and>
    find_best_fit_bin (bin_inventory s) (size_pkg pkg) = Inr idx \<and> idx \<noteq> - 1 \<and>
    used_space (bin_inventory s ! nat idx) + size_pkg pkg \<le> capacity (bin_inventory s ! nat idx) \<and>
    (fs = True # fs' \<or> fs = False # True # fs') \<longrightarrow>
      process_package fs s =
        s\<lparr>queue_incoming := rest,
          bin_inventory := (bin_inventory s)
            [nat idx := (bin_inventory s ! nat idx)
               \<lparr>used_space := used_space (bin_inventory s ! nat idx) + size_pkg pkg\<rparr>],
          db_pending := []\<rparr>) \<and>
   (try_load frames pkgs 0 (remaining_space (truck_heap s truck)) [] = (Inr True, chosen) \<and>
    k \<le> length chosen \<longrightarrow>
      load_fragile frames (replicate k False @ True # fs') truck pkgs s =
        (Inr chosen, (loaded (take (Suc k) chosen) truck s)\<lparr>db_pending := []\<rparr>))"
  using process_package_fault[of s pkg rest idx fs fs']
    load_fragile_fault[of frames pkgs s truck chosen k fs']
  by blast

text \<open>
  Such runs exist: the first placement of the demo with a store that fails at once, and
  the loading of the fragile packages with a store that fails at its second \<open>INSERT\<close>.
\<close>

theorem abort_keeps_container_state_witness:
  "queue_incoming main_after_ingest = p1 # [p2, p3, p4, p5] \<and>
   find_best_fit_bin (bin_inventory main_after_ingest) (size_pkg p1) = Inr 0 \<and>
   used_space (bin_inventory main_after_ingest ! 0) + size_pkg p1 \<le>
     capacity (bin_inventory main_after_ingest ! 0) \<and>
   map used_space (bin_inventory (process_package [True] main_after_ingest)) = [5, 0, 0, 0] \<and>
   shipment_logs (process_package [True] main_after_ingest) = [] \<and>
   db_pending (process_package [True] main_after_ingest) = [] \<and>
   try_load 1000 [p1, p3, p5] 0 (remaining_space (truck_heap main_after_placement 0)) [] =
     (Inr True, [p1, p3, p5]) \<and>
   load_fragile 1000 [False, True] 0 [p1, p3, p5] main_after_placement =
     (Inr [p1, p3, p5], (loaded [p1, p3] 0 main_after_placement)\<lparr>db_pending := []\<rparr>) \<and>
   stack_loading (snd (load_fragile 1000 [False, True] 0 [p1, p3, p5] main_after_placement)) =
     [(0, p1), (0, p3)] \<and>
   used_space (truck_heap (snd (load_fragile 1000 [False, True] 0 [p1, p3, p5] main_after_placement)) 0) = 13 \<and>
   shipment_logs (snd (load_fragile 1000 [False, True] 0 [p1, p3, p5] main_after_placement)) =
     shipment_logs main_after_placement"
proof -
  have q: "queue_incoming main_after_ingest = p1 # [p2, p3, p4, p5]"
    by (simp add: main_after_ingest_queue)
  have f: "find_best_fit_bin (bin_inventory main_after_ingest) (size_pkg p1) = Inr 0" by code_simp
  have b: "bin_inventory main_after_ingest =
     [\<lparr>capacity = 10, used_space = 0, bin_id = 1, location_code = ''A1''\<rparr>,
      \<lparr>capacity = 20, used_space = 0, bin_id = 2, location_code = ''A2''\<rparr>,
      \<lparr>capacity = 50, used_space = 0, bin_id = 3, location_code = ''B1''\<rparr>,
      \<lparr>capacity = 100, used_space = 0, bin_id = 4, location_code = ''B2''\<rparr>]"
    by code_simp
  have l: "shipment_logs main_after_ingest = []" by code_simp
  have c: "used_space (bin_inventory main_after_ingest ! 0) + size_pkg p1 \<le>
     capacity (bin_inventory main_after_ingest ! 0)"
    by (simp add: b p1_def)
  have a: "process_package [True] main_after_ingest =
      main_after_ingest\<lparr>queue_incoming := [p2, p3, p4, p5],
        bin_inventory := (bin_inventory main_after_ingest)
          [0 := (bin_inventory main_after_ingest ! 0)
             \<lparr>used_space := used_space (bin_inventory main_after_ingest ! 0) + size_pkg p1\<rparr>],
        db_pending := []\<rparr>"
    using abort_keeps_container_state[where s = main_after_ingest and pkg = p1
        and rest = "[p2, p3, p4, p5]" and idx = 0 and fs = "[True]" and fs' = "[]"] q f c
    by simp
  have t: "try_load 1000 [p1, p3, p5] 0 (remaining_space (truck_heap main_after_placement 0)) [] =
     (Inr True, [p1, p3, p5])"
    unfolding main_after_placement_rest(4) by code_simp
  have d: "load_fragile 1000 [False, True] 0 [p1, p3, p5] main_after_placement =
     (Inr [p1, p3, p5], (loaded [p1, p3] 0 main_after_placement)\<lparr>db_pending := []\<rparr>)"
    using abort_keeps_container_state[where s = main_after_placement and truck = 0
        and frames = 1000 and pkgs = "[p1, p3, p5]" and chosen = "[p1, p3, p5]" and k = 1 and fs' = "[]"] t
    by simp
  have e: "stack_loading (loaded [p1, p3] 0 main_after_placement) = [(0, p1), (0, p3)]"
    "used_space (truck_heap (loaded [p1, p3] 0 main_after_placement) 0) = 13"
    "shipment_logs (loaded [p1, p3] 0 main_after_placement) = shipment_logs main_after_placement"
    by (simp_all add: loaded_def main_after_placement_rest fresh_truck_def new_Truck_def p1_def p3_def)
  have sz: "size_pkg p1 = 5" by (simp add: p1_def)
  from q f c t d show ?thesis
    unfolding a by (simp add: e b l sz)
qed

section \<open>Best fit and used space\<close>

text \<open>
  Claim C9: the result of \<open>find_best_fit_bin\<close> depends on the capacities of the bins and
  their order only: two bin lists with the same capacities give the same result for every
  size. So the index found for the emptied bins is found for the bins as they are, and
  when the remaining space of that bin is less than the size of the package,
  \<open>occupy_space\<close> raises and the placement fails with the state unchanged.
\<close>

theorem best_fit_ignores_used_space:
  "(map capacity bins1 = map capacity bins2 \<longrightarrow>
      find_best_fit_bin bins1 sz = find_best_fit_bin bins2 sz) \<and>
   (find_best_fit_bin (map (\<lambda>b. b\<lparr>used_space := 0\<rparr>) (bin_inventory s)) (size_pkg pkg) = Inr idx \<and>
    idx \<noteq> - 1 \<and> remaining_space (bin_inventory s ! nat idx) < size_pkg pkg \<longrightarrow>
      find_best_fit_bin (bin_inventory s) (size_pkg pkg) = Inr idx \<and>
      fst (occupy_space (bin_inventory s ! nat idx) (size_pkg pkg)) = Inl ValueError \<and>
      try_place fs pkg s = (Inl ValueError, s))"
proof -
  have ind: "find_best_fit_bin xs z = find_best_fit_bin ys z" if "map capacity xs = map capacity ys"
    for xs ys z
    unfolding find_best_fit_bin_def
    using bs_loop_capacity_only[OF that] map_eq_imp_length_eq[OF that] by simp
  have "map capacity (map (\<lambda>b. b\<lparr>used_space := 0\<rparr>) (bin_inventory s)) = map capacity (bin_inventory s)"
    by simp
  from ind[OF this] have same:
    "find_best_fit_bin (map (\<lambda>b. b\<lparr>used_space := 0\<rparr>) (bin_inventory s)) (size_pkg pkg) =
     find_best_fit_bin (bin_inventory s) (size_pkg pkg)" .
  have "find_best_fit_bin (bin_inventory s) (size_pkg pkg) = Inr idx \<and>
      fst (occupy_space (bin_inventory s ! nat idx) (size_pkg pkg)) = Inl ValueError \<and>
      try_place fs pkg s = (Inl ValueError, s)"
    if a: "find_best_fit_bin (map (\<lambda>b. b\<lparr>used_space := 0\<rparr>) (bin_inventory s)) (size_pkg pkg) = Inr idx"
      and b: "idx \<noteq> - 1" and c: "remaining_space (bin_inventory s ! nat idx) < size_pkg pkg"
  proof -
    from a same have f: "find_best_fit_bin (bin_inventory s) (size_pkg pkg) = Inr idx" by simp
    from c have g: "used_space (bin_inventory s ! nat idx) + size_pkg pkg > capacity (bin_inventory s ! nat idx)"
      by (simp add: remaining_space_def)
    from f g try_place_full[OF f b g, of fs] show ?thesis by (simp add: occupy_space_def)
  qed
  with ind[of bins1 bins2 sz] show ?thesis by blast
qed

text \<open>The bins after two placements of the demo against the empty bins, for size 8.\<close>

theorem best_fit_ignores_used_space_witness:
  "map capacity (bin_inventory main_after_two) = map capacity demo_bins \<and>
   map used_space (bin_inventory main_after_two) = [5, 12, 0, 0] \<and>
   map used_space demo_bins = [0, 0, 0, 0] \<and>
   find_best_fit_bin (bin_inventory main_after_two) 8 = find_best_fit_bin demo_bins 8 \<and>
   find_best_fit_bin (map (\<lambda>b. b\<lparr>used_space := 0\<rparr>) (bin_inventory main_after_two)) (size_pkg p3) = Inr 0 \<and>
   remaining_space (bin_inventory main_after_two ! 0) < size_pkg p3 \<and>
   find_best_fit_bin (bin_inventory main_after_two) (size_pkg p3) = Inr 0 \<and>
   fst (occupy_space (bin_inventory main_after_two ! 0) (size_pkg p3)) = Inl ValueError \<and>
   try_place [] p3 main_after_two = (Inl ValueError, main_after_two)"
proof -
  have c: "map capacity (bin_inventory main_after_two) = map capacity demo_bins" by code_simp
  have u: "map used_space (bin_inventory main_after_two) = [5, 12, 0, 0]"
    "map used_space demo_bins = [0, 0, 0, 0]" by code_simp+
  have z: "find_best_fit_bin (map (\<lambda>b. b\<lparr>used_space := 0\<rparr>) (bin_inventory main_after_two)) (size_pkg p3) = Inr 0"
    by code_simp
  have r: "remaining_space (bin_inventory main_after_two ! 0) < size_pkg p3"
    by (simp add: main_after_two_bins remaining_space_def p3_def)
  from best_fit_ignores_used_space[where ?bins1.0 = "bin_inventory main_after_two"
      and ?bins2.0 = demo_bins and sz = 8] c
  have e: "find_best_fit_bin (bin_inventory main_after_two) 8 = find_best_fit_bin demo_bins 8"
    by blast
  from best_fit_ignores_used_space[where s = main_after_two and pkg = p3 and idx = 0 and fs = "[]"] z r
  have "find_best_fit_bin (bin_inventory main_after_two) (size_pkg p3) = Inr 0 \<and>
   fst (occupy_space (bin_inventory main_after_two ! 0) (size_pkg p3)) = Inl ValueError \<and>
   try_place [] p3 main_after_two = (Inl ValueError, main_after_two)"
    by simp
  with c u z r e show ?thesis by simp
qed

section \<open>The ledger\<close>

text \<open>
  Claim C6: in a run where the audit store raises nothing, \<open>rollback\<close> with count \<open>n\<close>
  pops \<open>min n (length of the ledger)\<close> entries (none for a negative \<open>n\<close>), undoes them
  the most recent first, each by releasing the size of its package from its truck and
  writing a \<open>ROLLBACK\<close> record, and commits; without a count it does so for the whole
  ledger, which is empty afterwards. On an empty ledger with no open audit batch (no
  operation of the controller leaves one open), \<open>rollback\<close> changes nothing, whatever
  the store does, also when it is called twice.
\<close>

theorem rollback_lifo:
  "(True \<notin> set fs \<longrightarrow>
      rollback fs (Some n) s = undone (nat (min n (int (length (stack_loading s))))) s \<and>
      rollback fs None s = undone (length (stack_loading s)) s \<and>
      stack_loading (rollback fs None s) = []) \<and>
   (stack_loading s = [] \<and> db_pending s = [] \<longrightarrow>
      rollback fs count s = s \<and> rollback fs' count' (rollback fs count s) = s)"
proof -
  have m: "min (nat n) (length (stack_loading s)) = nat (min n (int (length (stack_loading s))))"
    by (simp add: min_def)
  have a: "rollback fs (Some n) s = undone (nat (min n (int (length (stack_loading s))))) s"
    and b: "rollback fs None s = undone (length (stack_loading s)) s"
    if "True \<notin> set fs"
    using rollback_no_fault[OF that, of "Some n" s] rollback_no_fault[OF that, of None s] m
    by simp_all
  have c: "stack_loading (rollback fs None s) = []" if "True \<notin> set fs"
    unfolding b[OF that] by (simp add: undone_def)
  have d: "rollback fs count s = s \<and> rollback fs' count' (rollback fs count s) = s"
    if "stack_loading s = [] \<and> db_pending s = []"
    using that by (simp add: rollback_empty)
  from a b c d show ?thesis by blast
qed

lemma main_after_loading_facts:
  "stack_loading main_after_loading = [(0, p1), (0, p3), (0, p5)]"
  "truck_heap main_after_loading 0 = fresh_truck\<lparr>used_space := 22\<rparr>"
  "db_pending main_after_loading = []"
  by code_simp+

text \<open>
  The ledger of three entries of the demo: \<open>rollback(1)\<close> pops P005 and takes the truck
  from 22 to 13, \<open>rollback()\<close> empties the ledger and the truck; and two rollbacks on the
  empty ledger.
\<close>

theorem rollback_lifo_witness:
  "True \<notin> set ([] :: bool list) \<and>
   stack_loading main_after_loading = [(0, p1), (0, p3), (0, p5)] \<and>
   used_space (truck_heap main_after_loading 0) = 22 \<and>
   rollback [] (Some 1) main_after_loading = undone 1 main_after_loading \<and>
   stack_loading (rollback [] (Some 1) main_after_loading) = [(0, p1), (0, p3)] \<and>
   used_space (truck_heap (rollback [] (Some 1) main_after_loading) 0) = 13 \<and>
   shipment_logs (rollback [] (Some 1) main_after_loading) =
     shipment_logs main_after_loading @ [(''P005'', None, ''ROLLBACK'')] \<and>
   stack_loading (rollback [] None main_after_loading) = [] \<and>
   used_space (truck_heap (rollback [] None main_after_loading) 0) = 0 \<and>
   shipment_logs (rollback [] None main_after_loading) =
     shipment_logs main_after_loading @
       [(''P005'', None, ''ROLLBACK''), (''P003'', None, ''ROLLBACK''), (''P001'', None, ''ROLLBACK'')] \<and>
   stack_loading main_after_placement = [] \<and> db_pending main_after_placement = [] \<and>
   rollback [True] None main_after_placement = main_after_placement \<and>
   rollback [] (Some 3) (rollback [True] None main_after_placement) = main_after_placement"
proof -
  note m = main_after_loading_facts
  have len: "length (stack_loading main_after_loading) = 3" by (simp add: m)
  have nf: "True \<notin> set ([] :: bool list)" by simp
  from rollback_lifo[where fs = "[]" and n = 1 and s = main_after_loading] nf
  have "rollback [] (Some 1) main_after_loading =
          undone (nat (min 1 (int (length (stack_loading main_after_loading))))) main_after_loading"
    and "rollback [] None main_after_loading =
          undone (length (stack_loading main_after_loading)) main_after_loading"
    by blast+
  then have r1: "rollback [] (Some 1) main_after_loading = undone 1 main_after_loading"
    and r2: "rollback [] None main_after_loading = undone 3 main_after_loading"
    unfolding len by simp_all
  have hy: "stack_loading main_after_placement = [] \<and> db_pending main_after_placement = []"
    by (simp add: main_after_placement_rest)
  from rollback_lifo[where s = main_after_placement and fs = "[True]" and count = None
      and fs' = "[]" and count' = "Some 3"] hy
  have e: "rollback [True] None main_after_placement = main_after_placement"
    "rollback [] (Some 3) (rollback [True] None main_after_placement) = main_after_placement"
    by blast+
  have f1: "stack_loading (undone 1 main_after_loading) = [(0, p1), (0, p3)]"
    "used_space (truck_heap (undone 1 main_after_loading) 0) = 13"
    "shipment_logs (undone 1 main_after_loading) =
       shipment_logs main_after_loading @ [(''P005'', None, ''ROLLBACK'')]"
    by (simp_all add: undone_def m release_entry_def rollback_record_def free_space_def p5_def)
  have f2: "stack_loading (undone 3 main_after_loading) = []"
    "used_space (truck_heap (undone 3 main_after_loading) 0) = 0"
    "shipment_logs (undone 3 main_after_loading) =
       shipment_logs main_after_loading @
       [(''P005'', None, ''ROLLBACK''), (''P003'', None, ''ROLLBACK''), (''P001'', None, ''ROLLBACK'')]"
    by (simp_all add: undone_def m release_entry_def rollback_record_def free_space_def
        p1_def p3_def p5_def)
  from e have e3: "rollback [] (Some 3) main_after_placement = main_after_placement" by simp
  show ?thesis
    unfolding r1 r2 using f1 f2 e(1) e3 by (simp add: m main_after_placement_rest)
qed

end
